theory Spec2Isabelle
  imports Main "HOL-Library.Word" "HOL-Library.Sublist"
begin

unbundle bit_operations_syntax

section \<open>Errors, contexts and fetch functions\<close>

text \<open>
  The cacher package of go-utils: \<^verbatim>\<open>cacher/memory_cacher.go\<close> (the in-memory variant,
  go-cache plus singleflight) and the Redis variant (\<^verbatim>\<open>redisCacher\<close>, go-redis plus a
  lock key). Go error values are modelled by what the package makes of them:
  \<^verbatim>\<open>errors.New(msg)\<close>, \<^verbatim>\<open>fmt.Errorf("msg: %w", err)\<close>, the two context errors and
  \<^verbatim>\<open>redis.Nil\<close>. An error of a collaborator (the store client, the codec, the
  caller's fetch function) is a \<open>New\<close> value that carries its message.
\<close>

type_synonym key = string

datatype error =
    Canceled
  | DeadlineExceeded
  | RedisNil
  | New string
  | Wrap string error

text \<open>\<^verbatim>\<open>errors.Is(err, target)\<close>: walks the chain of wrapped errors.\<close>

fun errors_Is :: "error \<Rightarrow> error \<Rightarrow> bool" where
  "errors_Is (Wrap msg err) target = (Wrap msg err = target \<or> errors_Is err target)"
| "errors_Is err target = (err = target)"

text \<open>
  A \<^verbatim>\<open>context.Context\<close>, as the package uses it: it is polled with
  \<^verbatim>\<open>select { case <-ctx.Done(): ... default: }\<close> and asked for \<^verbatim>\<open>ctx.Err()\<close>.
  \<open>Background\<close> is never done. \<open>CancelAfter n err\<close> is a context that is cancelled
  (or runs into its deadline) while the call is under way: the next \<open>n\<close> polls still
  find it alive, every later one finds it done with \<open>err\<close>. \<open>CancelAfter 0 err\<close> is a
  context that is already done. \<open>ctx_Done\<close> is one poll: the error when done, and the
  context as the next poll finds it.
\<close>

datatype ctx = Background | CancelAfter nat error

fun ctx_Done :: "ctx \<Rightarrow> error option \<times> ctx" where
  "ctx_Done Background = (None, Background)"
| "ctx_Done (CancelAfter 0 err) = (Some err, CancelAfter 0 err)"
| "ctx_Done (CancelAfter (Suc n) err) = (None, CancelAfter n err)"

text \<open>
  \<^verbatim>\<open>type FetchFunc[T any] func(ctx context.Context) (T, error)\<close>. A Go closure can
  change what it captured (the tests count calls in \<^verbatim>\<open>fetchCount\<close>), so a fetch
  function is a transformer of the caller's world \<open>'w\<close> that returns an error or a
  value of \<open>T\<close>. How often it ran can be read off the world.
\<close>

type_synonym ('a, 'w) FetchFunc = "ctx \<Rightarrow> 'w \<Rightarrow> (error + 'a) \<times> 'w"

text \<open>Go's \<^verbatim>\<open>time.Duration\<close>: an int64 count of nanoseconds.\<close>

type_synonym Duration = "64 word"

definition Millisecond :: Duration where
  "Millisecond = 1000000"

definition Second :: Duration where
  "Second = 1000 * Millisecond"

section \<open>The in-memory variant\<close>

text \<open>
  \<^verbatim>\<open>MemoryCacher[T]\<close> holds a go-cache table and a singleflight group. The table maps a
  key to an \<^verbatim>\<open>interface{}\<close> and the ttl it was stored with; \<open>'d\<close> is the type of
  \<^verbatim>\<open>interface{}\<close> values. Converting a \<open>T\<close> to \<^verbatim>\<open>interface{}\<close> (\<open>box\<close>) and the type
  assertion \<^verbatim>\<open>val.(T)\<close> (\<open>assertT\<close>) are parameters of the operations; nothing is
  assumed about them (for an interface type \<open>T\<close> the assertion fails on a nil value that
  came from a \<open>T\<close>). Expiry by the passage of time is the table's own business and is
  not modelled: an entry stays until it is deleted or overwritten.

  The group maps a key to the call in flight for it. A caller that finds a call in
  flight waits for it and shares its result: the entry holds the result
  \<^verbatim>\<open>(val, err)\<close> that call delivers, an error or a value.
\<close>

type_synonym 'd Cache = "key \<rightharpoonup> 'd \<times> Duration"

type_synonym 'd Group = "key \<rightharpoonup> error + 'd"

record 'd MemoryCacher =
  cache :: "'d Cache"
  flights :: "'d Group"

definition cache_Get :: "'d Cache \<Rightarrow> key \<Rightarrow> 'd option" where
  "cache_Get c k = map_option fst (c k)"

definition cache_Set :: "'d Cache \<Rightarrow> key \<Rightarrow> 'd \<Rightarrow> Duration \<Rightarrow> 'd Cache" where
  "cache_Set c k x d = c(k \<mapsto> (x, d))"

definition cache_Delete :: "'d Cache \<Rightarrow> key \<Rightarrow> 'd Cache" where
  "cache_Delete c k = c(k := None)"

text \<open>
  \<^verbatim>\<open>group.Do(key, fn)\<close> of singleflight: with a call for \<open>key\<close> in flight the caller
  waits and returns that call's result, and \<open>fn\<close> does not run. Otherwise it registers
  a call, runs \<open>fn\<close>, removes the registration and returns the result. \<open>fn\<close> works on
  the state \<open>'s\<close> its closure captured.
\<close>

definition group_Do ::
  "'d Group \<Rightarrow> key \<Rightarrow> ('s \<Rightarrow> (error + 'd) \<times> 's) \<Rightarrow> 's \<Rightarrow> (error + 'd) \<times> 'd Group \<times> 's" where
  "group_Do g k fn st =
     (case g k of
        Some r \<Rightarrow> (r, g, st)
      | None \<Rightarrow>
          (case fn st of
             (r, st') \<Rightarrow> (r, (g(k \<mapsto> r))(k := None), st')))"

text \<open>
  \<^verbatim>\<open>MemoryCacher.GetOrFetch\<close> (memory_cacher.go, lines 51-100). \<open>try_cache\<close> is the
  lookup with its type assertion, written twice in the source (lines 60-64 and 71-75).
\<close>

definition try_cache :: "('d \<Rightarrow> 'a option) \<Rightarrow> 'd Cache \<Rightarrow> key \<Rightarrow> 'a option" where
  "try_cache assertT c k =
     (case cache_Get c k of
        None \<Rightarrow> None
      | Some v \<Rightarrow> assertT v)"

definition fetch_closure ::
  "('a \<Rightarrow> 'd) \<Rightarrow> ('d \<Rightarrow> 'a option) \<Rightarrow> ctx \<Rightarrow> key \<Rightarrow> Duration \<Rightarrow> ('a, 'w) FetchFunc \<Rightarrow>
   'd Cache \<times> 'w \<Rightarrow> (error + 'd) \<times> ('d Cache \<times> 'w)" where
  "fetch_closure box assertT cx k ttl fetchFn st =
     (case st of (c, w) \<Rightarrow>
        (case try_cache assertT c k of
           Some typedVal \<Rightarrow> (Inr (box typedVal), (c, w))
         | None \<Rightarrow>
             (case fetchFn cx w of
                (Inl err, w') \<Rightarrow> (Inl err, (c, w'))
              | (Inr fetchedVal, w') \<Rightarrow>
                  (Inr (box fetchedVal), (cache_Set c k (box fetchedVal) ttl, w')))))"

definition unexpected_type :: "key \<Rightarrow> error" where
  "unexpected_type k = New (''unexpected type in cache for key '' @ k)"

definition MemoryCacher_GetOrFetch ::
  "('a \<Rightarrow> 'd) \<Rightarrow> ('d \<Rightarrow> 'a option) \<Rightarrow> ctx \<Rightarrow> key \<Rightarrow> Duration \<Rightarrow> ('a, 'w) FetchFunc \<Rightarrow>
   'd MemoryCacher \<Rightarrow> 'w \<Rightarrow> (error + 'a) \<times> 'd MemoryCacher \<times> 'w" where
  "MemoryCacher_GetOrFetch box assertT cx k ttl fetchFn m w =
     (case try_cache assertT (cache m) k of
        Some typedVal \<Rightarrow> (Inr typedVal, m, w)
      | None \<Rightarrow>
          (case group_Do (flights m) k (fetch_closure box assertT cx k ttl fetchFn) (cache m, w) of
             (r, g', c', w') \<Rightarrow>
               (case r of
                  Inl err \<Rightarrow> (Inl err, \<lparr>cache = c', flights = g'\<rparr>, w')
                | Inr v \<Rightarrow>
                    (case assertT v of
                       Some typedVal \<Rightarrow> (Inr typedVal, \<lparr>cache = c', flights = g'\<rparr>, w')
                     | None \<Rightarrow> (Inl (unexpected_type k), \<lparr>cache = c', flights = g'\<rparr>, w')))))"

text \<open>
  \<^verbatim>\<open>MemoryCacher.DeleteByPrefix\<close> (lines 135-160). \<open>items\<close> is the key set of the
  snapshot \<^verbatim>\<open>c.cache.Items()\<close> in the order the \<^verbatim>\<open>range\<close> loop visits it: Go leaves
  the order of a map iteration open, so it is a parameter. The count is Go's \<^verbatim>\<open>int\<close>;
  it counts keys of a table in memory and cannot overflow, so it is a \<open>nat\<close>.
\<close>

fun delete_loop ::
  "ctx \<Rightarrow> string \<Rightarrow> key list \<Rightarrow> 'd Cache \<Rightarrow> nat \<Rightarrow> (nat \<times> error option) \<times> 'd Cache" where
  "delete_loop cx pre [] c deletedCount = ((deletedCount, None), c)"
| "delete_loop cx pre (k # ks) c deletedCount =
     (case ctx_Done cx of
        (Some err, cx') \<Rightarrow> ((deletedCount, Some err), c)
      | (None, cx') \<Rightarrow>
          (if prefix pre k
           then delete_loop cx' pre ks (cache_Delete c k) (deletedCount + 1)
           else delete_loop cx' pre ks c deletedCount))"

definition MemoryCacher_DeleteByPrefix ::
  "ctx \<Rightarrow> string \<Rightarrow> key list \<Rightarrow> 'd MemoryCacher \<Rightarrow> (nat \<times> error option) \<times> 'd MemoryCacher" where
  "MemoryCacher_DeleteByPrefix cx pre items m =
     (case ctx_Done cx of
        (Some err, cx') \<Rightarrow> ((0, Some err), m)
      | (None, cx') \<Rightarrow>
          (case delete_loop cx' pre items (cache m) 0 of
             (r, c') \<Rightarrow> (r, m\<lparr>cache := c'\<rparr>)))"

subsection \<open>Concurrent callers of the in-memory variant\<close>

text \<open>
  Any number of goroutines call \<^verbatim>\<open>MemoryCacher.GetOrFetch\<close> with the same context, key,
  ttl and fetch function, and their steps interleave. A caller is at one of these
  places:
  \<^item> \<open>Calling\<close>: before the first look at the table (line 60);
  \<^item> \<open>Missed\<close>: the first look missed, before \<^verbatim>\<open>group.Do\<close> (line 68);
  \<^item> \<open>Leading c\<close>: \<^verbatim>\<open>group.Do\<close> has registered the call \<open>c\<close> for this caller, which now
    runs the closure: before the second look at the table (line 71);
  \<^item> \<open>Fetching c\<close>: the second look missed, before \<^verbatim>\<open>fetchFn(ctx)\<close> (line 78);
  \<^item> \<open>Storing c x\<close>: fetched \<open>x\<close>, before \<^verbatim>\<open>c.cache.Set\<close> (line 84);
  \<^item> \<open>Finishing c r\<close>: the closure has returned \<open>r\<close>; before singleflight ends the call
    (it wakes the waiters and removes the registration, in one step under its mutex);
  \<^item> \<open>Waiting c\<close>: \<^verbatim>\<open>group.Do\<close> found the call \<open>c\<close> in flight; blocked until it ends;
  \<^item> \<open>Resuming c r\<close>: \<^verbatim>\<open>group.Do\<close> has returned the result \<open>r\<close> of the call \<open>c\<close> (line 89);
  \<^item> \<open>Returned res\<close>: \<^verbatim>\<open>GetOrFetch\<close> has returned \<open>res\<close>.

  The shared state: the table, the registrations of the group (key to call), the
  results of the calls that have ended, the next fresh call, the world of the fetch
  function, and the place of every caller. \<open>race_step i\<close> is the next step of caller
  \<open>i\<close>; a caller that waits for a call still in flight, or has returned, does not move.
  The table lookups, \<^verbatim>\<open>group.Do\<close>'s registration, the run of the fetch function,
  \<^verbatim>\<open>Set\<close> and the end of a call are each one step. The fetch function works on
  its world only, and the other steps do not touch the world, so a step of another
  caller during a fetch is a step before it or after it.
\<close>

datatype ('a, 'd) caller =
    Calling
  | Missed
  | Leading nat
  | Fetching nat
  | Storing nat 'a
  | Finishing nat "error + 'd"
  | Waiting nat
  | Resuming nat "error + 'd"
  | Returned "error + 'a"

record ('a, 'd, 'w) race =
  table :: "'d Cache"
  calls :: "key \<rightharpoonup> nat"
  ended :: "nat \<rightharpoonup> error + 'd"
  fresh :: nat
  outside :: 'w
  callers :: "nat \<Rightarrow> ('a, 'd) caller"

definition move :: "nat \<Rightarrow> ('a, 'd) caller \<Rightarrow> ('a, 'd, 'w) race \<Rightarrow> ('a, 'd, 'w) race" where
  "move i p st = st\<lparr>callers := (callers st)(i := p)\<rparr>"

definition race_step ::
  "('a \<Rightarrow> 'd) \<Rightarrow> ('d \<Rightarrow> 'a option) \<Rightarrow> ctx \<Rightarrow> key \<Rightarrow> Duration \<Rightarrow> ('a, 'w) FetchFunc \<Rightarrow>
   nat \<Rightarrow> ('a, 'd, 'w) race \<Rightarrow> ('a, 'd, 'w) race" where
  "race_step box assertT cx k ttl fetchFn i st =
     (case callers st i of
        Calling \<Rightarrow>
          (case try_cache assertT (table st) k of
             Some typedVal \<Rightarrow> move i (Returned (Inr typedVal)) st
           | None \<Rightarrow> move i Missed st)
      | Missed \<Rightarrow>
          (case calls st k of
             Some c \<Rightarrow> move i (Waiting c) st
           | None \<Rightarrow>
               move i (Leading (fresh st))
                 (st\<lparr>calls := (calls st)(k \<mapsto> fresh st), fresh := Suc (fresh st)\<rparr>))
      | Leading c \<Rightarrow>
          (case try_cache assertT (table st) k of
             Some typedVal \<Rightarrow> move i (Finishing c (Inr (box typedVal))) st
           | None \<Rightarrow> move i (Fetching c) st)
      | Fetching c \<Rightarrow>
          (case fetchFn cx (outside st) of
             (Inl err, w') \<Rightarrow> move i (Finishing c (Inl err)) (st\<lparr>outside := w'\<rparr>)
           | (Inr fetchedVal, w') \<Rightarrow> move i (Storing c fetchedVal) (st\<lparr>outside := w'\<rparr>))
      | Storing c fetchedVal \<Rightarrow>
          move i (Finishing c (Inr (box fetchedVal)))
            (st\<lparr>table := cache_Set (table st) k (box fetchedVal) ttl\<rparr>)
      | Finishing c r \<Rightarrow>
          move i (Resuming c r)
            (st\<lparr>ended := (ended st)(c \<mapsto> r),
                calls := (if calls st k = Some c then (calls st)(k := None) else calls st)\<rparr>)
      | Waiting c \<Rightarrow>
          (case ended st c of
             None \<Rightarrow> st
           | Some r \<Rightarrow> move i (Resuming c r) st)
      | Resuming c r \<Rightarrow>
          (case r of
             Inl err \<Rightarrow> move i (Returned (Inl err)) st
           | Inr v \<Rightarrow>
               (case assertT v of
                  Some typedVal \<Rightarrow> move i (Returned (Inr typedVal)) st
                | None \<Rightarrow> move i (Returned (Inl (unexpected_type k))) st))
      | Returned res \<Rightarrow> st)"

text \<open>
  A schedule is the list of the callers in the order they step. \<open>race_start\<close> is the
  state before any caller has moved.
\<close>

fun race_run ::
  "('a \<Rightarrow> 'd) \<Rightarrow> ('d \<Rightarrow> 'a option) \<Rightarrow> ctx \<Rightarrow> key \<Rightarrow> Duration \<Rightarrow> ('a, 'w) FetchFunc \<Rightarrow>
   nat list \<Rightarrow> ('a, 'd, 'w) race \<Rightarrow> ('a, 'd, 'w) race" where
  "race_run box assertT cx k ttl fetchFn [] st = st"
| "race_run box assertT cx k ttl fetchFn (i # sched) st =
     race_run box assertT cx k ttl fetchFn sched (race_step box assertT cx k ttl fetchFn i st)"

definition race_start :: "'d Cache \<Rightarrow> 'w \<Rightarrow> ('a, 'd, 'w) race" where
  "race_start c w =
     \<lparr>table = c, calls = Map.empty, ended = Map.empty, fresh = 0, outside = w,
      callers = (\<lambda>i. Calling)\<rparr>"

text \<open>
  Three stages of a race on a cold table whose fetch succeeds with \<open>x\<close> and takes the
  world from \<open>w0\<close> to \<open>w1\<close>: nobody has fetched yet; one caller has fetched and is
  about to store; the value is in the table.
\<close>

fun leads :: "('a, 'd) caller \<Rightarrow> bool" where
  "leads (Leading c) = True"
| "leads (Fetching c) = True"
| "leads p = False"

fun early :: "nat option \<Rightarrow> ('a, 'd) caller \<Rightarrow> bool" where
  "early reg Calling = True"
| "early reg Missed = True"
| "early reg (Leading c) = (reg = Some c)"
| "early reg (Fetching c) = (reg = Some c)"
| "early reg (Waiting c) = (reg = Some c)"
| "early reg p = False"

fun beside :: "nat \<Rightarrow> ('a, 'd) caller \<Rightarrow> bool" where
  "beside c Calling = True"
| "beside c Missed = True"
| "beside c (Waiting c') = (c' = c)"
| "beside c p = False"

fun settled :: "'d \<Rightarrow> 'a \<Rightarrow> ('a, 'd) caller \<Rightarrow> bool" where
  "settled v x (Fetching c) = False"
| "settled v x (Storing c y) = False"
| "settled v x (Finishing c r) = (r = Inr v)"
| "settled v x (Resuming c r) = (r = Inr v)"
| "settled v x (Returned res) = (res = Inr x)"
| "settled v x p = True"

definition before_fetch :: "key \<Rightarrow> 'd Cache \<Rightarrow> 'w \<Rightarrow> ('a, 'd, 'w) race \<Rightarrow> bool" where
  "before_fetch k c0 w0 st \<longleftrightarrow>
     outside st = w0 \<and> table st = c0 \<and> ended st = Map.empty \<and>
     (\<forall>i. early (calls st k) (callers st i)) \<and>
     (\<forall>i j. leads (callers st i) \<and> leads (callers st j) \<longrightarrow> i = j)"

definition while_storing :: "key \<Rightarrow> 'd Cache \<Rightarrow> 'w \<Rightarrow> 'a \<Rightarrow> ('a, 'd, 'w) race \<Rightarrow> bool" where
  "while_storing k c0 w1 x st \<longleftrightarrow>
     outside st = w1 \<and> table st = c0 \<and> ended st = Map.empty \<and>
     (\<exists>i c. callers st i = Storing c x \<and> calls st k = Some c \<and>
        (\<forall>j. j \<noteq> i \<longrightarrow> beside c (callers st j)))"

definition after_store ::
  "('a \<Rightarrow> 'd) \<Rightarrow> key \<Rightarrow> Duration \<Rightarrow> 'd Cache \<Rightarrow> 'w \<Rightarrow> 'a \<Rightarrow> ('a, 'd, 'w) race \<Rightarrow> bool" where
  "after_store box k ttl c0 w1 x st \<longleftrightarrow>
     outside st = w1 \<and> table st = cache_Set c0 k (box x) ttl \<and>
     (\<forall>c r. ended st c = Some r \<longrightarrow> r = Inr (box x)) \<and>
     (\<forall>i. settled (box x) x (callers st i))"

text \<open>
  A race on a cold table whose fetch function fails with \<open>err\<close> whenever it runs:
  nothing is stored and every result is \<open>err\<close>.
\<close>

fun failed :: "error \<Rightarrow> ('a, 'd) caller \<Rightarrow> bool" where
  "failed err (Storing c y) = False"
| "failed err (Finishing c r) = (r = Inl err)"
| "failed err (Resuming c r) = (r = Inl err)"
| "failed err (Returned res) = (res = Inl err)"
| "failed err p = True"

definition fetch_failing :: "'d Cache \<Rightarrow> error \<Rightarrow> ('a, 'd, 'w) race \<Rightarrow> bool" where
  "fetch_failing c0 err st \<longleftrightarrow>
     table st = c0 \<and> (\<forall>c r. ended st c = Some r \<longrightarrow> r = Inl err) \<and>
     (\<forall>i. failed err (callers st i))"

text \<open>
  The call of the group a caller is running, from its registration to the end of the
  call; and what holds of the calls in every state of a race: the caller that runs a
  call is the one registered for the key and the call has not ended, no two callers
  run a call, call numbers in use are below \<open>fresh\<close>, and a caller that comes out of
  \<^verbatim>\<open>group.Do\<close> holds the result its call ended with.
\<close>

fun flight_of :: "('a, 'd) caller \<Rightarrow> nat option" where
  "flight_of (Leading c) = Some c"
| "flight_of (Fetching c) = Some c"
| "flight_of (Storing c y) = Some c"
| "flight_of (Finishing c r) = Some c"
| "flight_of p = None"

definition one_flight :: "key \<Rightarrow> ('a, 'd, 'w) race \<Rightarrow> bool" where
  "one_flight k st \<longleftrightarrow>
     (\<forall>i c. flight_of (callers st i) = Some c \<longrightarrow> calls st k = Some c \<and> ended st c = None) \<and>
     (\<forall>i j. flight_of (callers st i) \<noteq> None \<and> flight_of (callers st j) \<noteq> None \<longrightarrow> i = j) \<and>
     (\<forall>c. calls st k = Some c \<longrightarrow> c < fresh st) \<and>
     (\<forall>c r. ended st c = Some r \<longrightarrow> c < fresh st) \<and>
     (\<forall>i c r. callers st i = Resuming c r \<longrightarrow> ended st c = Some r)"

text \<open>
  No caller waits in vain: a registration of the group belongs to a caller that is
  running that call, and so does a call that somebody waits for and that has not ended.
\<close>

definition attended :: "key \<Rightarrow> ('a, 'd, 'w) race \<Rightarrow> bool" where
  "attended k st \<longleftrightarrow>
     (\<forall>c. calls st k = Some c \<longrightarrow> (\<exists>l. flight_of (callers st l) = Some c)) \<and>
     (\<forall>i c. callers st i = Waiting c \<longrightarrow>
        ended st c \<noteq> None \<or> (\<exists>l. flight_of (callers st l) = Some c))"

text \<open>How many steps a caller that nothing holds up is away from its return, at most.\<close>

fun steps_left :: "('a, 'd) caller \<Rightarrow> nat" where
  "steps_left Calling = 8"
| "steps_left Missed = 7"
| "steps_left (Leading c) = 6"
| "steps_left (Fetching c) = 5"
| "steps_left (Storing c y) = 4"
| "steps_left (Finishing c r) = 3"
| "steps_left (Waiting c) = 2"
| "steps_left (Resuming c r) = 1"
| "steps_left (Returned res) = 0"

section \<open>The Redis variant\<close>

subsection \<open>The store, its commands and the client\<close>

text \<open>
  The store maps a key to its value and the time-to-live it was last given, in
  milliseconds. The server's expiry of keys by the passage of time is not modelled: a
  key stays until a command removes it, or until the environment does.

  A \<open>redis\<close> value is the world as one caller of the client sees it: the store, the
  events of the environment, the clock (nanoseconds), and the durations handed to
  \<^verbatim>\<open>time.Sleep\<close> so far. Every command the caller issues meets the next event of
  \<open>env\<close>: \<open>Quiet\<close> (the command runs on the store as it is), \<open>Fail err\<close> (the
  client returns \<open>err\<close> and the store is untouched), or \<open>Interfere f\<close> (other clients
  have changed the store by \<open>f\<close> since the caller's last command; then the command
  runs). With no event left the environment is quiet.
\<close>

type_synonym Store = "key \<rightharpoonup> string \<times> int"

datatype event = Quiet | Fail error | Interfere "Store \<Rightarrow> Store"

record redis =
  store :: Store
  env :: "event list"
  now :: int
  sleeps :: "Duration list"

text \<open>\<^verbatim>\<open>Duration.Milliseconds\<close>: integer division of int64, truncating towards zero.\<close>

definition Milliseconds :: "Duration \<Rightarrow> int" where
  "Milliseconds d =
     (if 0 \<le> sint d then sint d div 1000000 else - ((- sint d) div 1000000))"

text \<open>The commands of the server, on the store.\<close>

definition GET :: "key \<Rightarrow> Store \<Rightarrow> (error + string) \<times> Store" where
  "GET k st = (case st k of None \<Rightarrow> (Inl RedisNil, st) | Some (v, t) \<Rightarrow> (Inr v, st))"

definition SET :: "key \<Rightarrow> string \<Rightarrow> int \<Rightarrow> Store \<Rightarrow> (error + unit) \<times> Store" where
  "SET k v t st = (Inr (), st(k \<mapsto> (v, t)))"

definition SETNX :: "key \<Rightarrow> string \<Rightarrow> int \<Rightarrow> Store \<Rightarrow> (error + bool) \<times> Store" where
  "SETNX k v t st =
     (case st k of None \<Rightarrow> (Inr True, st(k \<mapsto> (v, t))) | Some e \<Rightarrow> (Inr False, st))"

definition EXISTS :: "key \<Rightarrow> Store \<Rightarrow> (error + nat) \<times> Store" where
  "EXISTS k st = (Inr (if st k = None then 0 else 1), st)"

fun del_keys :: "key list \<Rightarrow> Store \<Rightarrow> nat \<times> Store" where
  "del_keys [] st = (0, st)"
| "del_keys (k # ks) st =
     (case del_keys ks (st(k := None)) of
        (n, st') \<Rightarrow> ((if st k = None then 0 else 1) + n, st'))"

definition DEL :: "key list \<Rightarrow> Store \<Rightarrow> (error + nat) \<times> Store" where
  "DEL ks st = (case del_keys ks st of (n, st') \<Rightarrow> (Inr n, st'))"

text \<open>\<^verbatim>\<open>PEXPIRE\<close>: a time-to-live that is not positive deletes the key.\<close>

definition PEXPIRE :: "key \<Rightarrow> int \<Rightarrow> Store \<Rightarrow> (error + nat) \<times> Store" where
  "PEXPIRE k ms st =
     (case st k of
        None \<Rightarrow> (Inr 0, st)
      | Some (v, t) \<Rightarrow> (Inr 1, if ms \<le> 0 then st(k := None) else st(k \<mapsto> (v, ms))))"

text \<open>
  The two Lua scripts of the source, run by the server in one step. \<open>k1\<close> is
  \<^verbatim>\<open>KEYS[1]\<close>, \<open>a1\<close> and \<open>a2\<close> are \<^verbatim>\<open>ARGV[1]\<close> and \<^verbatim>\<open>ARGV[2]\<close>. The release
  script (lines 92-98):
  \<^verbatim>\<open>if redis.call("get", KEYS[1]) == ARGV[1] then return redis.call("del", KEYS[1]) else return 0 end\<close>
  and the extend script (lines 146-152), with \<^verbatim>\<open>pexpire\<close> for \<^verbatim>\<open>del\<close>.
\<close>

definition release_script :: "key \<Rightarrow> string \<Rightarrow> Store \<Rightarrow> (error + nat) \<times> Store" where
  "release_script k1 a1 st = (if fst (GET k1 st) = Inr a1 then DEL [k1] st else (Inr 0, st))"

definition extend_script :: "key \<Rightarrow> string \<Rightarrow> int \<Rightarrow> Store \<Rightarrow> (error + nat) \<times> Store" where
  "extend_script k1 a1 a2 st =
     (if fst (GET k1 st) = Inr a1 then PEXPIRE k1 a2 st else (Inr 0, st))"

text \<open>One command of the caller through the client: it meets the next event.\<close>

definition next_event :: "redis \<Rightarrow> event \<times> redis" where
  "next_event s = (case env s of [] \<Rightarrow> (Quiet, s) | ev # evs \<Rightarrow> (ev, s\<lparr>env := evs\<rparr>))"

definition command :: "(Store \<Rightarrow> (error + 'r) \<times> Store) \<Rightarrow> redis \<Rightarrow> (error + 'r) \<times> redis" where
  "command f s =
     (case next_event s of
        (Quiet, s') \<Rightarrow> (case f (store s') of (r, st) \<Rightarrow> (r, s'\<lparr>store := st\<rparr>))
      | (Fail err, s') \<Rightarrow> (Inl err, s')
      | (Interfere g, s') \<Rightarrow> (case f (g (store s')) of (r, st) \<Rightarrow> (r, s'\<lparr>store := st\<rparr>)))"

definition client_Get :: "key \<Rightarrow> redis \<Rightarrow> (error + string) \<times> redis" where
  "client_Get k = command (GET k)"

definition client_Set :: "key \<Rightarrow> string \<Rightarrow> Duration \<Rightarrow> redis \<Rightarrow> (error + unit) \<times> redis" where
  "client_Set k v ttl = command (SET k v (Milliseconds ttl))"

definition client_SetNX :: "key \<Rightarrow> string \<Rightarrow> Duration \<Rightarrow> redis \<Rightarrow> (error + bool) \<times> redis" where
  "client_SetNX k v ttl = command (SETNX k v (Milliseconds ttl))"

definition client_Exists :: "key \<Rightarrow> redis \<Rightarrow> (error + nat) \<times> redis" where
  "client_Exists k = command (EXISTS k)"

definition client_Del :: "key list \<Rightarrow> redis \<Rightarrow> (error + nat) \<times> redis" where
  "client_Del ks = command (DEL ks)"

definition client_Eval :: "(Store \<Rightarrow> (error + nat) \<times> Store) \<Rightarrow> redis \<Rightarrow> (error + nat) \<times> redis" where
  "client_Eval script = command script"

text \<open>\<^verbatim>\<open>time.Sleep(d)\<close>: returns at once when \<open>d\<close> is not positive.\<close>

definition time_Sleep :: "Duration \<Rightarrow> redis \<Rightarrow> redis" where
  "time_Sleep d s =
     s\<lparr>now := now s + (if 0 <s d then sint d else 0), sleeps := sleeps s @ [d]\<rparr>"

subsection \<open>The operations of \<^verbatim>\<open>redisCacher\<close>\<close>

text \<open>
  The codec (\<^verbatim>\<open>json.Marshal\<close> and \<^verbatim>\<open>json.Unmarshal\<close> at type \<open>T\<close>) is a pair of
  parameters \<open>marshal\<close> and \<open>unmarshal\<close>; either can fail. \<open>decode\<close> is the block the
  source writes after each successful read (lines 65-70, 212-217 and 235-239).
\<close>

definition decode :: "(string \<Rightarrow> error + 'a) \<Rightarrow> string \<Rightarrow> error + 'a" where
  "decode unmarshal v =
     (case unmarshal v of
        Inl err \<Rightarrow> Inl (Wrap ''failed to unmarshal cached value'' err)
      | Inr result \<Rightarrow> Inr result)"

definition lock_key :: "key \<Rightarrow> key" where
  "lock_key k = k @ '':lock''"

definition lockTTL :: Duration where
  "lockTTL = 30 * Second"

text \<open>
  \<^verbatim>\<open>extendLock\<close> (lines 142-162): every firing of the ticker evaluates the extend
  script and drops the result. \<open>ticks\<close> is the number of firings before the context
  of the goroutine is cancelled.
\<close>

definition extend_once :: "key \<Rightarrow> string \<Rightarrow> Duration \<Rightarrow> redis \<Rightarrow> redis" where
  "extend_once lockKey lockValue ttl s =
     snd (client_Eval (extend_script lockKey lockValue (Milliseconds ttl)) s)"

fun extendLock :: "nat \<Rightarrow> key \<Rightarrow> string \<Rightarrow> Duration \<Rightarrow> redis \<Rightarrow> redis" where
  "extendLock 0 lockKey lockValue ttl s = s"
| "extendLock (Suc ticks) lockKey lockValue ttl s =
     extendLock ticks lockKey lockValue ttl (extend_once lockKey lockValue ttl s)"

text \<open>The deferred release of the lock (lines 90-100); the result is dropped.\<close>

definition release_lock :: "key \<Rightarrow> string \<Rightarrow> redis \<Rightarrow> redis" where
  "release_lock lockKey lockValue s = snd (client_Eval (release_script lockKey lockValue) s)"

text \<open>
  The holder's work under the lock (lines 108-123): fetch, marshal, write the entry.
  The goroutine started at line 106 runs beside it; its \<open>ticks\<close> evaluations of the
  extend script are placed where the time goes, between the call of the fetch function
  and the write of the entry.
\<close>

definition fetch_and_store ::
  "('a \<Rightarrow> error + string) \<Rightarrow> nat \<Rightarrow> key \<Rightarrow> string \<Rightarrow> ctx \<Rightarrow> key \<Rightarrow> Duration \<Rightarrow>
   ('a, 'w) FetchFunc \<Rightarrow> redis \<Rightarrow> 'w \<Rightarrow> (error + 'a) \<times> redis \<times> 'w" where
  "fetch_and_store marshal ticks lockKey lockValue cx k ttl fetchFn s w =
     (case fetchFn cx w of
        (r, w') \<Rightarrow>
          (case extendLock ticks lockKey lockValue lockTTL s of
             s1 \<Rightarrow>
               (case r of
                  Inl err \<Rightarrow> (Inl (Wrap ''fetch function failed'' err), s1, w')
                | Inr result \<Rightarrow>
                    (case marshal result of
                       Inl err \<Rightarrow> (Inl (Wrap ''failed to marshal result'' err), s1, w')
                     | Inr data \<Rightarrow>
                         (case client_Set k data ttl s1 of
                            (Inl err, s2) \<Rightarrow> (Inl (Wrap ''failed to cache result'' err), s2, w')
                          | (Inr u, s2) \<Rightarrow> (Inr result, s2, w'))))))"

text \<open>
  \<^verbatim>\<open>waitForCache\<close> (lines 185-251). The loop has no bound of its own: it ends when
  the clock passes the deadline, so it is a partial function, and that it returns is
  proved below. \<open>wait_loop\<close> is the \<^verbatim>\<open>for\<close> loop with the loop variable \<open>backoff\<close>.
\<close>

definition maxBackoff :: Duration where
  "maxBackoff = 500 * Millisecond"

definition next_backoff :: "Duration \<Rightarrow> Duration" where
  "next_backoff backoff =
     (if maxBackoff <s backoff * 2 then maxBackoff else backoff * 2)"

partial_function (option) wait_loop ::
  "(string \<Rightarrow> error + 'a) \<Rightarrow> key \<Rightarrow> key \<Rightarrow> int \<Rightarrow> ctx \<Rightarrow> Duration \<Rightarrow> redis \<Rightarrow>
   ((error + 'a) \<times> redis) option" where
  "wait_loop unmarshal k lockKey deadline cx backoff s =
     (case ctx_Done cx of
        (Some err, cx') \<Rightarrow> Some (Inl err, s)
      | (None, cx') \<Rightarrow>
          if deadline < now s then Some (Inl (New ''timeout waiting for cache''), s)
          else
            (case client_Get k s of
               (Inr v, s1) \<Rightarrow> Some (decode unmarshal v, s1)
             | (Inl err, s1) \<Rightarrow>
                 if \<not> errors_Is err RedisNil then Some (Inl (Wrap ''redis get error'' err), s1)
                 else
                   (case client_Exists lockKey s1 of
                      (Inl err, s2) \<Rightarrow> Some (Inl (Wrap ''failed to check lock existence'' err), s2)
                    | (Inr exists, s2) \<Rightarrow>
                        if exists = 0 then
                          (case client_Get k s2 of
                             (Inr v, s3) \<Rightarrow> Some (decode unmarshal v, s3)
                           | (Inl err, s3) \<Rightarrow>
                               Some (Inl (New ''fetch operation failed or cache not populated''), s3))
                        else
                          wait_loop unmarshal k lockKey deadline cx' (next_backoff backoff)
                            (time_Sleep backoff s2))))"

definition waitForCache ::
  "(string \<Rightarrow> error + 'a) \<Rightarrow> ctx \<Rightarrow> key \<Rightarrow> key \<Rightarrow> Duration \<Rightarrow> redis \<Rightarrow>
   ((error + 'a) \<times> redis) option" where
  "waitForCache unmarshal cx k lockKey timeout s =
     wait_loop unmarshal k lockKey (now s + sint timeout) cx (10 * Millisecond) s"

text \<open>
  The polls of \<^verbatim>\<open>waitForCache\<close> that go round the loop (lines 196-250): the context is
  alive, the deadline has not passed, the entry is absent and the lock key exists, so
  the caller sleeps and doubles its backoff. \<open>wait_rounds k lockKey deadline n\<close> is the
  context, the backoff and the store as the poll after \<open>n\<close> such rounds finds them, and
  \<open>None\<close> when one of the first \<open>n\<close> polls leaves the loop.
\<close>

fun wait_rounds ::
  "key \<Rightarrow> key \<Rightarrow> int \<Rightarrow> nat \<Rightarrow> ctx \<Rightarrow> Duration \<Rightarrow> redis \<Rightarrow> (ctx \<times> Duration \<times> redis) option" where
  "wait_rounds k lockKey deadline 0 cx backoff s = Some (cx, backoff, s)"
| "wait_rounds k lockKey deadline (Suc n) cx backoff s =
     (case ctx_Done cx of
        (Some err, cx') \<Rightarrow> None
      | (None, cx') \<Rightarrow>
          if deadline < now s then None
          else
            (case client_Get k s of
               (Inr v, s1) \<Rightarrow> None
             | (Inl err, s1) \<Rightarrow>
                 if \<not> errors_Is err RedisNil then None
                 else
                   (case client_Exists lockKey s1 of
                      (Inl err, s2) \<Rightarrow> None
                    | (Inr exists, s2) \<Rightarrow>
                        if exists = 0 then None
                        else
                          wait_rounds k lockKey deadline n cx' (next_backoff backoff)
                            (time_Sleep backoff s2))))"

text \<open>
  \<^verbatim>\<open>redisCacher.GetOrFetch\<close> (lines 59-128). \<open>lockValue\<close> is the caller's token,
  \<^verbatim>\<open>fmt.Sprintf("%d", time.Now().UnixNano())\<close>. The deferred functions run when the
  holder returns, on every path: \<^verbatim>\<open>cancel()\<close> stops the goroutine, then the lock is
  released.
\<close>

definition redisCacher_GetOrFetch ::
  "('a \<Rightarrow> error + string) \<Rightarrow> (string \<Rightarrow> error + 'a) \<Rightarrow> nat \<Rightarrow> string \<Rightarrow> ctx \<Rightarrow> key \<Rightarrow>
   Duration \<Rightarrow> ('a, 'w) FetchFunc \<Rightarrow> redis \<Rightarrow> 'w \<Rightarrow> ((error + 'a) \<times> redis \<times> 'w) option" where
  "redisCacher_GetOrFetch marshal unmarshal ticks lockValue cx k ttl fetchFn s w =
     (case client_Get k s of
        (Inr v, s1) \<Rightarrow> Some (decode unmarshal v, s1, w)
      | (Inl err, s1) \<Rightarrow>
          if \<not> errors_Is err RedisNil then Some (Inl (Wrap ''redis get error'' err), s1, w)
          else
            (case client_SetNX (lock_key k) lockValue lockTTL s1 of
               (Inl err, s2) \<Rightarrow> Some (Inl (Wrap ''failed to acquire lock'' err), s2, w)
             | (Inr acquired, s2) \<Rightarrow>
                 if acquired then
                   (case fetch_and_store marshal ticks (lock_key k) lockValue cx k ttl fetchFn s2 w of
                      (r, s3, w') \<Rightarrow> Some (r, release_lock (lock_key k) lockValue s3, w'))
                 else
                   map_option (\<lambda>(r, s3). (r, s3, w))
                     (waitForCache unmarshal cx k (lock_key k) (30 * Second) s2)))"

text \<open>
  \<^verbatim>\<open>redisCacher.DeleteByPrefix\<close> (lines 279-315). What the \<^verbatim>\<open>SCAN\<close> iterator yields
  is up to the server (the pattern \<^verbatim>\<open>prefix*\<close> is matched there, a key can come more
  than once): the keys it yields, \<open>scanned\<close>, and the error it ends with, \<open>scan_err\<close>,
  are parameters. \<open>scan_loop\<close> is the \<^verbatim>\<open>for iter.Next(ctx)\<close> loop.
\<close>

fun scan_loop :: "ctx \<Rightarrow> string \<Rightarrow> key list \<Rightarrow> key list \<Rightarrow> error + key list" where
  "scan_loop cx pre [] keysToDelete = Inr keysToDelete"
| "scan_loop cx pre (k # ks) keysToDelete =
     (case ctx_Done cx of
        (Some err, cx') \<Rightarrow> Inl err
      | (None, cx') \<Rightarrow>
          (if prefix pre k
           then scan_loop cx' pre ks (keysToDelete @ [k])
           else scan_loop cx' pre ks keysToDelete))"

definition redisCacher_DeleteByPrefix ::
  "ctx \<Rightarrow> string \<Rightarrow> key list \<Rightarrow> error option \<Rightarrow> redis \<Rightarrow> (nat \<times> error option) \<times> redis" where
  "redisCacher_DeleteByPrefix cx pre scanned scan_err s =
     (case scan_loop cx pre scanned [] of
        Inl err \<Rightarrow> ((0, Some err), s)
      | Inr keysToDelete \<Rightarrow>
          (case scan_err of
             Some err \<Rightarrow> ((0, Some (Wrap ''failed to scan keys'' err)), s)
           | None \<Rightarrow>
               (if 0 < length keysToDelete then
                  (case client_Del keysToDelete s of
                     (Inl err, s') \<Rightarrow> ((0, Some (Wrap ''failed to delete keys'' err)), s')
                   | (Inr deleted, s') \<Rightarrow> ((deleted, None), s'))
                else ((0, None), s))))"

text \<open>
  The value of the loop variable \<open>backoff\<close> of \<^verbatim>\<open>waitForCache\<close> at the start of
  iteration \<open>i\<close> (lines 194 and 246-249).
\<close>

fun backoff_at :: "nat \<Rightarrow> Duration" where
  "backoff_at 0 = 10 * Millisecond"
| "backoff_at (Suc i) = next_backoff (backoff_at i)"

section \<open>Properties of the in-memory variant\<close>

lemma fetch_closure_ctx:
  "fetch_closure box assertT cx2 k ttl (\<lambda>c. fetchFn cx1) = fetch_closure box assertT cx1 k ttl fetchFn"
  by (rule ext) (simp add: fetch_closure_def)

lemma memory_hit:
  "try_cache assertT (cache m) k = Some v \<Longrightarrow>
   MemoryCacher_GetOrFetch box assertT cx k ttl fetchFn m w = (Inr v, m, w)"
  by (simp add: MemoryCacher_GetOrFetch_def)

lemma memory_ctx_only_fetch:
  "MemoryCacher_GetOrFetch box assertT cx k ttl fetchFn m w =
   MemoryCacher_GetOrFetch box assertT cx' k ttl (\<lambda>c. fetchFn cx) m w"
  unfolding MemoryCacher_GetOrFetch_def fetch_closure_ctx [of box assertT cx' k ttl fetchFn cx] ..

text \<open>A miss with no call in flight: the caller's own fetch decides everything.\<close>

lemma memory_idle_miss:
  assumes "try_cache assertT (cache m) k = None" and "flights m k = None"
  shows "MemoryCacher_GetOrFetch box assertT cx k ttl fetchFn m w =
     (case fetchFn cx w of
        (Inl err, w') \<Rightarrow> (Inl err, m, w')
      | (Inr y, w') \<Rightarrow>
          ((case assertT (box y) of Some t \<Rightarrow> Inr t | None \<Rightarrow> Inl (unexpected_type k)),
           m\<lparr>cache := (cache m)(k \<mapsto> (box y, ttl))\<rparr>, w'))"
  using assms
  by (cases m)
    (auto simp add: MemoryCacher_GetOrFetch_def fetch_closure_def group_Do_def cache_Set_def
      split: prod.splits sum.splits option.splits)

text \<open>A miss with a call in flight: the caller shares that call's result.\<close>

lemma memory_attached:
  assumes "try_cache assertT (cache m) k = None" and "flights m k = Some r"
  shows "MemoryCacher_GetOrFetch box assertT cx k ttl fetchFn m w =
     ((case r of
         Inl err \<Rightarrow> Inl err
       | Inr v \<Rightarrow> (case assertT v of Some t \<Rightarrow> Inr t | None \<Rightarrow> Inl (unexpected_type k))),
      m, w)"
  using assms
  by (cases m)
    (auto simp add: MemoryCacher_GetOrFetch_def group_Do_def
      split: prod.splits sum.splits option.splits)

text \<open>
  C9. In the in-memory variant a hit returns the cached value with no error whatever
  the context is, a context that is already cancelled included: the cacher, its group
  and the caller's world are as before. The context reaches the call only through the
  fetch function: a call with context \<open>cx\<close> is the call, under any other context, of
  the fetch function closed over \<open>cx\<close>.
\<close>

theorem memory_hit_ignores_context:
  "(try_cache assertT (cache m) k = Some v \<longrightarrow>
      MemoryCacher_GetOrFetch box assertT (CancelAfter 0 err) k ttl fetchFn m w = (Inr v, m, w) \<and>
      (\<forall>cx. MemoryCacher_GetOrFetch box assertT cx k ttl fetchFn m w = (Inr v, m, w)))
   \<and> (\<forall>cx cx'. MemoryCacher_GetOrFetch box assertT cx k ttl fetchFn m w =
         MemoryCacher_GetOrFetch box assertT cx' k ttl (\<lambda>c. fetchFn cx) m w)"
  using memory_hit [of assertT m k v box _ ttl fetchFn w]
    memory_ctx_only_fetch [of box assertT _ k ttl fetchFn m w]
  by blast

text \<open>
  The fetch function of the package's test \<^verbatim>\<open>GetOrFetch_ContextCancelled\<close>: it
  returns the context's error when the context is done. \<open>''key''\<close> is cached, the
  context is cancelled, and the call returns the cached value; the fetch function has
  not run (the counter is still 0).
\<close>

theorem memory_hit_ignores_context_witness:
  "MemoryCacher_GetOrFetch Some (\<lambda>d. d) (CancelAfter 0 Canceled) ''key'' Second
     (\<lambda>cx n. case ctx_Done cx of (Some e, c) \<Rightarrow> (Inl e, Suc n) | (None, c) \<Rightarrow> (Inr ''fetched'', Suc n))
     \<lparr>cache = [''key'' \<mapsto> (Some ''value'', Second)], flights = Map.empty\<rparr> (0::nat)
   = (Inr ''value'', \<lparr>cache = [''key'' \<mapsto> (Some ''value'', Second)], flights = Map.empty\<rparr>, 0)"
proof -
  have hit: "try_cache (\<lambda>d. d)
      (cache \<lparr>cache = [''key'' \<mapsto> (Some ''value'', Second)], flights = Map.empty\<rparr>) ''key''
      = Some ''value''"
    by (simp add: try_cache_def cache_Get_def)
  from memory_hit_ignores_context [of "\<lambda>d. d" _ "''key''" "''value''" Some Canceled] hit
  show ?thesis by fast
qed

text \<open>
  C10. In the in-memory variant a stored value that is not a \<open>T\<close> is a miss, not an
  error. With no call in flight the fetch function runs once; when it fails its error is
  returned and the table is as before; when it succeeds the entry is overwritten with
  the fetched value, and the type-mismatch error is returned exactly when the fetched
  value itself fails the assertion. The result is that of the same call on the table
  without the entry. With a call in flight the caller shares its result, and the
  type-mismatch error is returned when that value fails the assertion.
\<close>

theorem type_mismatch_is_a_miss:
  assumes "cache m k = Some (x, d)" and "assertT x = None"
  shows "(flights m k = None \<longrightarrow>
      MemoryCacher_GetOrFetch box assertT cx k ttl fetchFn m w =
        (case fetchFn cx w of
           (Inl err, w') \<Rightarrow> (Inl err, m, w')
         | (Inr y, w') \<Rightarrow>
             ((case assertT (box y) of Some t \<Rightarrow> Inr t | None \<Rightarrow> Inl (unexpected_type k)),
              m\<lparr>cache := (cache m)(k \<mapsto> (box y, ttl))\<rparr>, w'))
      \<and> fst (MemoryCacher_GetOrFetch box assertT cx k ttl fetchFn m w) =
          fst (MemoryCacher_GetOrFetch box assertT cx k ttl fetchFn
                 (m\<lparr>cache := cache_Delete (cache m) k\<rparr>) w))
   \<and> (\<forall>r. flights m k = Some r \<longrightarrow>
      MemoryCacher_GetOrFetch box assertT cx k ttl fetchFn m w =
        ((case r of
            Inl err \<Rightarrow> Inl err
          | Inr v \<Rightarrow> (case assertT v of Some t \<Rightarrow> Inr t | None \<Rightarrow> Inl (unexpected_type k))),
         m, w))"
proof -
  have miss: "try_cache assertT (cache m) k = None"
    using assms by (simp add: try_cache_def cache_Get_def)
  have miss': "try_cache assertT (cache (m\<lparr>cache := cache_Delete (cache m) k\<rparr>)) k = None"
    by (simp add: try_cache_def cache_Get_def cache_Delete_def)
  have idle: "flights m k = None \<Longrightarrow>
      MemoryCacher_GetOrFetch box assertT cx k ttl fetchFn m w =
        (case fetchFn cx w of
           (Inl err, w') \<Rightarrow> (Inl err, m, w')
         | (Inr y, w') \<Rightarrow>
             ((case assertT (box y) of Some t \<Rightarrow> Inr t | None \<Rightarrow> Inl (unexpected_type k)),
              m\<lparr>cache := (cache m)(k \<mapsto> (box y, ttl))\<rparr>, w'))"
    by (rule memory_idle_miss [OF miss])
  have same: "flights m k = None \<Longrightarrow>
      fst (MemoryCacher_GetOrFetch box assertT cx k ttl fetchFn m w) =
      fst (MemoryCacher_GetOrFetch box assertT cx k ttl fetchFn
             (m\<lparr>cache := cache_Delete (cache m) k\<rparr>) w)"
  proof -
    assume g: "flights m k = None"
    then have g': "flights (m\<lparr>cache := cache_Delete (cache m) k\<rparr>) k = None"
      by simp
    show ?thesis
      unfolding memory_idle_miss [OF miss g] memory_idle_miss [OF miss' g']
      by (simp split: prod.splits sum.splits)
  qed
  from idle same memory_attached [OF miss, of _ box cx ttl fetchFn w] show ?thesis
    by simp
qed

text \<open>
  The table holds a value that is not a string under \<open>''key''\<close> (\<open>None\<close>, where a
  string \<open>v\<close> is held as \<open>Some v\<close>). The call fetches (the counter goes from 0 to 1),
  overwrites the entry and returns the fetched value.
\<close>

theorem type_mismatch_is_a_miss_witness:
  "MemoryCacher_GetOrFetch Some (\<lambda>d. d) Background ''key'' Second
     (\<lambda>cx n. (Inr ''fetched'', Suc n))
     \<lparr>cache = [''key'' \<mapsto> (None, Second)], flights = Map.empty\<rparr> (0::nat)
   = (Inr ''fetched'', \<lparr>cache = [''key'' \<mapsto> (Some ''fetched'', Second)], flights = Map.empty\<rparr>, 1)"
proof -
  have stored: "cache \<lparr>cache = [''key'' \<mapsto> (None :: string option, Second)], flights = Map.empty\<rparr> ''key''
      = Some (None, Second)"
    by simp
  from type_mismatch_is_a_miss [of _ "''key''" None Second "\<lambda>d. d" Some Background Second
      "\<lambda>cx n. (Inr ''fetched'', Suc n)" "0::nat", OF stored]
  show ?thesis by simp
qed

section \<open>Properties of the Redis variant\<close>

subsection \<open>The client and the scripts\<close>

lemma command_frame:
  "command f s = (r, s') \<Longrightarrow> now s' = now s \<and> sleeps s' = sleeps s \<and> env s' = tl (env s)"
  by (auto simp add: command_def next_event_def split: list.splits event.splits prod.splits)

lemma command_quiet:
  "env s = [] \<Longrightarrow> command f s = (fst (f (store s)), s\<lparr>store := snd (f (store s))\<rparr>)"
  by (simp add: command_def next_event_def split: prod.splits)

lemma client_Get_frame:
  "client_Get k s = (r, s') \<Longrightarrow> now s' = now s \<and> sleeps s' = sleeps s \<and> env s' = tl (env s)"
  unfolding client_Get_def by (rule command_frame)

lemma client_Exists_frame:
  "client_Exists k s = (r, s') \<Longrightarrow> now s' = now s \<and> sleeps s' = sleeps s \<and> env s' = tl (env s)"
  unfolding client_Exists_def by (rule command_frame)

lemma client_Get_store:
  "client_Get k s = (r, s') \<Longrightarrow>
   store s' = (case fst (next_event s) of Interfere g \<Rightarrow> g (store s) | _ \<Rightarrow> store s)"
  by (auto simp add: client_Get_def command_def next_event_def GET_def 
      split: list.splits event.splits prod.splits option.splits)

lemma redis_hit:
  "client_Get k s = (Inr v, s1) \<Longrightarrow>
   redisCacher_GetOrFetch marshal unmarshal ticks lockValue cx k ttl fetchFn s w =
     Some (decode unmarshal v, s1, w)"
  by (simp add: redisCacher_GetOrFetch_def)

lemma release_script_effect:
  "snd (release_script lk tok st) =
     (if map_option fst (st lk) = Some tok then st(lk := None) else st)"
  by (auto simp add: release_script_def GET_def DEL_def split: option.splits)

lemma extend_script_effect:
  "snd (extend_script lk tok ms st) =
     (if map_option fst (st lk) = Some tok
      then (if ms \<le> 0 then st(lk := None) else st(lk \<mapsto> (tok, ms)))
      else st)"
  by (auto simp add: extend_script_def GET_def PEXPIRE_def split: option.splits)

lemma Milliseconds_lockTTL: "Milliseconds lockTTL = 30000"
  by (simp add: Milliseconds_def lockTTL_def Second_def Millisecond_def)

lemma release_lock_quiet:
  "env s = [] \<Longrightarrow> release_lock lk tok s = s\<lparr>store := snd (release_script lk tok (store s))\<rparr>"
  by (simp add: release_lock_def client_Eval_def command_quiet)

lemma extend_once_quiet:
  "env s = [] \<Longrightarrow> extend_once lk tok ttl s =
     s\<lparr>store := snd (extend_script lk tok (Milliseconds ttl) (store s))\<rparr>"
  by (simp add: extend_once_def client_Eval_def command_quiet)

lemmas quiet_eval =
  client_Get_def client_Exists_def client_Set_def client_SetNX_def client_Del_def client_Eval_def
  command_quiet GET_def EXISTS_def SET_def SETNX_def DEL_def PEXPIRE_def

lemmas loop_eval =
  waitForCache_def wait_loop.simps time_Sleep_def next_backoff_def maxBackoff_def
  Millisecond_def Second_def word_sless_alt eval_nat_numeral

lemmas event_eval =
  client_Get_def client_Exists_def client_Set_def client_SetNX_def client_Del_def client_Eval_def
  command_def next_event_def GET_def EXISTS_def SET_def SETNX_def DEL_def PEXPIRE_def

text \<open>
  C3. An extend or release step run with a token that is not the value stored under
  the lock key (another owner's token, or no lock at all) changes nothing: the key, its
  value and its expiry are as before. With the token stored under the key the release
  deletes the key and the extension resets its expiry to the lock's 30 s; the release
  deletes a lock exactly when it holds the caller's token. The steps of the client
  (the deferred release of \<^verbatim>\<open>GetOrFetch\<close>, a firing of \<^verbatim>\<open>extendLock\<close>) do to the store
  what their scripts do, when the command gets through.
\<close>

theorem lock_ownership:
  "(map_option fst (st lk) \<noteq> Some tok \<longrightarrow>
      snd (release_script lk tok st) = st \<and>
      snd (extend_script lk tok (Milliseconds lockTTL) st) = st)
   \<and> (\<forall>t. st lk = Some (tok, t) \<longrightarrow>
      snd (release_script lk tok st) = st(lk := None) \<and>
      snd (extend_script lk tok (Milliseconds lockTTL) st) = st(lk \<mapsto> (tok, 30000)))
   \<and> (snd (release_script lk tok st) lk = None \<and> st lk \<noteq> None
        \<longleftrightarrow> map_option fst (st lk) = Some tok)
   \<and> (env s = [] \<longrightarrow>
      release_lock lk tok s = s\<lparr>store := snd (release_script lk tok (store s))\<rparr> \<and>
      extend_once lk tok lockTTL s =
        s\<lparr>store := snd (extend_script lk tok (Milliseconds lockTTL) (store s))\<rparr>)"
  by (auto simp add: release_script_effect extend_script_effect Milliseconds_lockTTL
      release_lock_quiet extend_once_quiet)

text \<open>
  The first owner's lock has expired and a second owner has acquired the lock key. The
  first owner's release and extension leave the second owner's lock and its expiry as
  they are; the second owner's own release deletes it and its own extension resets the
  expiry to 30 s.
\<close>

theorem lock_ownership_witness:
  "release_lock ''k:lock'' ''owner1''
      \<lparr>store = [''k:lock'' \<mapsto> (''owner2'', 12000)], env = [], now = 0, sleeps = []\<rparr>
    = \<lparr>store = [''k:lock'' \<mapsto> (''owner2'', 12000)], env = [], now = 0, sleeps = []\<rparr>
   \<and> extend_once ''k:lock'' ''owner1'' lockTTL
      \<lparr>store = [''k:lock'' \<mapsto> (''owner2'', 12000)], env = [], now = 0, sleeps = []\<rparr>
    = \<lparr>store = [''k:lock'' \<mapsto> (''owner2'', 12000)], env = [], now = 0, sleeps = []\<rparr>
   \<and> release_lock ''k:lock'' ''owner2''
      \<lparr>store = [''k:lock'' \<mapsto> (''owner2'', 12000)], env = [], now = 0, sleeps = []\<rparr>
    = \<lparr>store = Map.empty, env = [], now = 0, sleeps = []\<rparr>
   \<and> extend_once ''k:lock'' ''owner2'' lockTTL
      \<lparr>store = [''k:lock'' \<mapsto> (''owner2'', 12000)], env = [], now = 0, sleeps = []\<rparr>
    = \<lparr>store = [''k:lock'' \<mapsto> (''owner2'', 30000)], env = [], now = 0, sleeps = []\<rparr>"
proof -
  let ?st = "[''k:lock'' \<mapsto> (''owner2'', 12000 :: int)]"
  let ?s = "\<lparr>store = ?st, env = [], now = 0, sleeps = []\<rparr>"
  have quiet: "env ?s = []" by simp
  have other: "map_option fst (?st ''k:lock'') \<noteq> Some ''owner1''" by simp
  have own: "?st ''k:lock'' = Some (''owner2'', 12000)" by simp
  from lock_ownership [of ?st "''k:lock''" "''owner1''" ?s] quiet other
  have 1: "release_lock ''k:lock'' ''owner1'' ?s = ?s \<and> extend_once ''k:lock'' ''owner1'' lockTTL ?s = ?s"
    by simp
  from lock_ownership [of ?st "''k:lock''" "''owner2''" ?s] quiet own
  have 2: "release_lock ''k:lock'' ''owner2'' ?s = \<lparr>store = Map.empty, env = [], now = 0, sleeps = []\<rparr>
    \<and> extend_once ''k:lock'' ''owner2'' lockTTL ?s
      = \<lparr>store = [''k:lock'' \<mapsto> (''owner2'', 30000)], env = [], now = 0, sleeps = []\<rparr>"
    by simp
  from 1 2 show ?thesis by simp
qed

subsection \<open>The wait loop\<close>

lemma sint_double:
  fixes b :: Duration
  assumes "0 \<le> sint b" and "sint b \<le> 500000000"
  shows "sint (b * 2) = 2 * sint b"
proof -
  have "sint (b * 2) = signed_take_bit 63 (sint b * sint (2 :: Duration))"
    by (simp add: sint_word_ariths)
  also have "\<dots> = signed_take_bit 63 (2 * sint b)"
    by (simp add: mult.commute)
  also have "\<dots> = 2 * sint b"
    using assms by (simp add: signed_take_bit_int_eq_self)
  finally show ?thesis .
qed

lemma sint_next_backoff:
  fixes b :: Duration
  assumes "0 \<le> sint b" and "sint b \<le> 500000000"
  shows "sint (next_backoff b) = min (2 * sint b) 500000000"
proof -
  have m: "sint maxBackoff = 500000000"
    by (simp add: maxBackoff_def Millisecond_def)
  show ?thesis
    using sint_double [OF assms] m
    by (simp add: next_backoff_def word_sless_alt min_def)
qed

lemma sint_backoff_at: "sint (backoff_at i) = min (10000000 * 2 ^ i) 500000000"
proof (induction i)
  case 0
  show ?case by (simp add: Millisecond_def)
next
  case (Suc i)
  have lo: "0 \<le> sint (backoff_at i)" and hi: "sint (backoff_at i) \<le> 500000000"
    using Suc by simp_all
  show ?case
    using sint_next_backoff [OF lo hi] Suc
    by (simp add: min_def)
qed

lemma backoff_at_ge: "10000000 \<le> sint (backoff_at j)"
  using sint_backoff_at [of j] by (simp add: min_def)

lemma backoff_at_pos: "0 <s backoff_at j"
  using backoff_at_ge [of j] by (simp add: word_sless_alt)

lemma time_Sleep_backoff:
  "now (time_Sleep (backoff_at j) s) = now s + sint (backoff_at j)"
  "sleeps (time_Sleep (backoff_at j) s) = sleeps s @ [backoff_at j]"
  "env (time_Sleep d s) = env s" "store (time_Sleep d s) = store s"
  using backoff_at_pos [of j] by (simp_all add: time_Sleep_def)

lemma upt_shift: "[j..<j + Suc n] = j # [Suc j..<Suc j + n]"
  by (simp add: upt_rec)

lemma wait_loop_returns:
  "\<exists>r s' n. wait_loop un k lk dl cx (backoff_at j) s = Some (r, s') \<and>
     sleeps s' = sleeps s @ map backoff_at [j..<j + n]"
proof (induction "nat (dl - now s + 1)" arbitrary: s cx j rule: less_induct)
  case less
  obtain e cx' where poll: "ctx_Done cx = (e, cx')" by (cases "ctx_Done cx")
  obtain g1 s1 where get1: "client_Get k s = (g1, s1)" by (cases "client_Get k s")
  obtain x s2 where ex: "client_Exists lk s1 = (x, s2)" by (cases "client_Exists lk s1")
  obtain g3 s3 where get3: "client_Get k s2 = (g3, s3)" by (cases "client_Get k s2")
  note f1 = client_Get_frame [OF get1] and f2 = client_Exists_frame [OF ex]
    and f3 = client_Get_frame [OF get3]
  let ?s4 = "time_Sleep (backoff_at j) s2"
  have stop: "wait_loop un k lk dl cx (backoff_at j) s = Some (r, s') \<Longrightarrow> sleeps s' = sleeps s \<Longrightarrow>
      ?case" for r s'
    by (rule exI [of _ r], rule exI [of _ s'], rule exI [of _ 0]) simp
  show ?case
  proof (cases "e = None \<and> \<not> dl < now s \<and> (\<exists>err. g1 = Inl err \<and> errors_Is err RedisNil)
      \<and> (\<exists>n. x = Inr n \<and> n \<noteq> 0)")
    case True
    then have unfold: "wait_loop un k lk dl cx (backoff_at j) s =
        wait_loop un k lk dl cx' (backoff_at (Suc j)) ?s4"
      using poll get1 ex by (subst wait_loop.simps) auto
    have "nat (dl - now ?s4 + 1) < nat (dl - now s + 1)"
      using True f1 f2 backoff_at_ge [of j] by (simp add: time_Sleep_backoff)
    from less [OF this, of cx' "Suc j"]
    obtain r s' n where rec: "wait_loop un k lk dl cx' (backoff_at (Suc j)) ?s4 = Some (r, s')"
      and sl: "sleeps s' = sleeps ?s4 @ map backoff_at [Suc j..<Suc j + n]"
      by blast
    have "sleeps s' = sleeps s @ map backoff_at [j..<j + Suc n]"
      using sl f1 f2 unfolding upt_shift by (simp add: time_Sleep_backoff)
    with rec unfold show ?thesis by metis
  next
    case False
    show ?thesis
    proof (cases e)
      case (Some err)
      then show ?thesis using poll by (intro stop [of "Inl err" s]) (subst wait_loop.simps, simp, simp)
    next
      case None
      note alive = this
      show ?thesis
      proof (cases "dl < now s")
        case True
        then show ?thesis using poll alive
          by (intro stop [of "Inl (New ''timeout waiting for cache'')" s]) (subst wait_loop.simps, simp, simp)
      next
        case late: False
        show ?thesis
        proof (cases g1)
          case (Inr v)
          then show ?thesis using poll alive late get1 f1
            by (intro stop [of "decode un v" s1]) (subst wait_loop.simps, simp, simp)
        next
          case (Inl err)
          note miss = this
          show ?thesis
          proof (cases "errors_Is err RedisNil")
            case False
            then show ?thesis using poll alive late get1 f1 miss
              by (intro stop [of "Inl (Wrap ''redis get error'' err)" s1]) (subst wait_loop.simps, simp, simp)
          next
            case True
            note nil = this
            show ?thesis
            proof (cases x)
              case (Inl err2)
              then show ?thesis using poll alive late get1 f1 miss nil ex f2
                by (intro stop [of "Inl (Wrap ''failed to check lock existence'' err2)" s2]) (subst wait_loop.simps, simp, simp)
            next
              case (Inr n)
              with \<open>\<not> (e = None \<and> \<not> dl < now s \<and> (\<exists>err. g1 = Inl err \<and> errors_Is err RedisNil)
                \<and> (\<exists>n. x = Inr n \<and> n \<noteq> 0))\<close> alive late miss nil
              have gone: "x = Inr 0" by simp
              show ?thesis
              proof (cases g3)
                case (Inl err3)
                then show ?thesis using poll alive late get1 f1 miss nil ex f2 gone get3 f3
                  by (intro stop [of "Inl (New ''fetch operation failed or cache not populated'')" s3]) (subst wait_loop.simps, simp, simp)
              next
                case (Inr v)
                then show ?thesis using poll alive late get1 f1 miss nil ex f2 gone get3 f3
                  by (intro stop [of "decode un v" s3]) (subst wait_loop.simps, simp, simp)
              qed
            qed
          qed
        qed
      qed
    qed
  qed
qed

lemma min_backoff_mono:
  "i \<le> j \<Longrightarrow> min (10000000 * 2 ^ i) (500000000 :: int) \<le> min (10000000 * 2 ^ j) 500000000"
proof -
  assume "i \<le> j"
  then have "(2 :: int) ^ i \<le> 2 ^ j"
    by (simp add: power_increasing)
  then have "(10000000 :: int) * 2 ^ i \<le> 10000000 * 2 ^ j"
    by simp
  then show ?thesis
    by (rule min.mono) simp
qed

text \<open>
  C6. \<^verbatim>\<open>waitForCache\<close> returns, and the intervals it has slept are, in order, 10 ms,
  20 ms, 40 ms, ... capped at 500 ms: the interval of the sleep number \<open>i\<close> (from 0) of
  the call is \<open>min (10 * 2 ^ i) 500\<close> ms, in nanoseconds as \<^verbatim>\<open>time.Duration\<close> holds it.
  Hence no interval exceeds 500 ms and the sequence never decreases. The int64
  doubling never wraps around.
\<close>

theorem backoff_schedule:
  "\<exists>r s' n. waitForCache unmarshal cx k lockKey timeout s = Some (r, s')
     \<and> sleeps s' = sleeps s @ drop (length (sleeps s)) (sleeps s')
     \<and> length (sleeps s') = length (sleeps s) + n
     \<and> (\<forall>i<n. sint (sleeps s' ! (length (sleeps s) + i)) = min (10 * 2 ^ i) 500 * 1000000)
     \<and> (\<forall>i<n. sint (sleeps s' ! (length (sleeps s) + i)) \<le> 500 * 1000000)
     \<and> (\<forall>i j. i \<le> j \<longrightarrow> j < n \<longrightarrow>
           sint (sleeps s' ! (length (sleeps s) + i)) \<le> sint (sleeps s' ! (length (sleeps s) + j)))"
proof -
  from wait_loop_returns [of unmarshal k lockKey "now s + sint timeout" cx 0 s]
  obtain r s' n where ret: "waitForCache unmarshal cx k lockKey timeout s = Some (r, s')"
    and sl: "sleeps s' = sleeps s @ map backoff_at [0..<n]"
    by (auto simp add: waitForCache_def)
  have nth: "sint (sleeps s' ! (length (sleeps s) + i)) = min (10000000 * 2 ^ i) 500000000"
    if "i < n" for i
    using that by (simp add: sl nth_append sint_backoff_at)
  have a: "sleeps s' = sleeps s @ drop (length (sleeps s)) (sleeps s')"
    by (simp add: sl)
  have b: "length (sleeps s') = length (sleeps s) + n"
    by (simp add: sl)
  have c: "\<forall>i<n. sint (sleeps s' ! (length (sleeps s) + i)) = min (10 * 2 ^ i) 500 * 1000000"
    using nth by (simp add: min_def)
  have d: "\<forall>i<n. sint (sleeps s' ! (length (sleeps s) + i)) \<le> 500 * 1000000"
    using nth by simp
  have e: "\<forall>i j. i \<le> j \<longrightarrow> j < n \<longrightarrow>
      sint (sleeps s' ! (length (sleeps s) + i)) \<le> sint (sleeps s' ! (length (sleeps s) + j))"
  proof (intro allI impI)
    fix i j :: nat
    assume ij: "i \<le> j" and jn: "j < n"
    then have "i < n" by simp
    from nth [OF this] nth [OF jn] min_backoff_mono [OF ij]
    show "sint (sleeps s' ! (length (sleeps s) + i)) \<le> sint (sleeps s' ! (length (sleeps s) + j))"
      by simp
  qed
  from ret a b c d e show ?thesis by blast
qed

text \<open>
  The lock is held and never released, the entry never appears, and the caller's context
  is cancelled after eight polls: the call has slept eight times, 10, 20, 40, 80, 160,
  320, 500 and 500 ms.
\<close>

theorem backoff_schedule_witness:
  "waitForCache Inr (CancelAfter 8 Canceled) ''k'' ''k:lock'' (30 * Second)
     \<lparr>store = [''k:lock'' \<mapsto> (''tok'', 30000)], env = [], now = 0, sleeps = []\<rparr>
   = Some (Inl Canceled :: error + string,
       \<lparr>store = [''k:lock'' \<mapsto> (''tok'', 30000)], env = [], now = 1630000000,
        sleeps = [10000000, 20000000, 40000000, 80000000, 160000000, 320000000,
                  500000000, 500000000]\<rparr>)
   \<and> sint ([10000000, 20000000, 40000000, 80000000, 160000000, 320000000,
             500000000, 500000000 :: Duration] ! 6) = min (10 * 2 ^ 6) 500 * 1000000"
proof -
  let ?s = "\<lparr>store = [''k:lock'' \<mapsto> (''tok'', 30000)], env = [], now = 0, sleeps = []\<rparr>"
  let ?W = "waitForCache Inr (CancelAfter 8 Canceled) ''k'' ''k:lock'' (30 * Second) ?s
      :: ((error + string) \<times> redis) option"
  have run: "?W = Some (Inl Canceled,
       \<lparr>store = [''k:lock'' \<mapsto> (''tok'', 30000)], env = [], now = 1630000000,
        sleeps = [10000000, 20000000, 40000000, 80000000, 160000000, 320000000,
                  500000000, 500000000]\<rparr>)"
    by (simp add: loop_eval quiet_eval)
  from backoff_schedule [of Inr "CancelAfter 8 Canceled" "''k''" "''k:lock''" "30 * Second" ?s]
  obtain r :: "error + string" and s' n where ret: "?W = Some (r, s')"
    and len: "length (sleeps s') = length (sleeps ?s) + n"
    and nth: "\<forall>i<n. sint (sleeps s' ! (length (sleeps ?s) + i)) = min (10 * 2 ^ i) 500 * 1000000"
    by blast
  from ret run have s': "s' = \<lparr>store = [''k:lock'' \<mapsto> (''tok'', 30000)], env = [], now = 1630000000,
        sleeps = [10000000, 20000000, 40000000, 80000000, 160000000, 320000000,
                  500000000, 500000000]\<rparr>"
    by simp
  with len have "n = 8" by simp
  with nth have "sint (sleeps s' ! (length (sleeps ?s) + 6)) = min (10 * 2 ^ 6) 500 * 1000000"
    by simp
  with s' run show ?thesis by simp
qed

text \<open>
  C4. An iteration of the wait loop that finds the context alive, the deadline not
  passed, the entry absent (\<^verbatim>\<open>redis.Nil\<close>) and the lock key gone reads the entry exactly
  once more and returns: what the read decodes to when it succeeds (the value, or the
  unmarshal error for bytes that do not decode), and otherwise the error
  \<^verbatim>\<open>fetch operation failed or cache not populated\<close>. It does not sleep and does not poll
  again: three commands were issued in all, no time has passed.
\<close>

theorem lock_gone_last_read:
  assumes "ctx_Done cx = (None, cx')" and "\<not> deadline < now s"
    and "client_Get k s = (Inl err, s1)" and "errors_Is err RedisNil"
    and "client_Exists lockKey s1 = (Inr 0, s2)"
  shows "wait_loop unmarshal k lockKey deadline cx backoff s =
      Some (case client_Get k s2 of
              (Inr v, s3) \<Rightarrow> (decode unmarshal v, s3)
            | (Inl e, s3) \<Rightarrow> (Inl (New ''fetch operation failed or cache not populated''), s3))
    \<and> (\<exists>r s3. wait_loop unmarshal k lockKey deadline cx backoff s = Some (r, s3)
          \<and> s3 = snd (client_Get k s2)
          \<and> sleeps s3 = sleeps s \<and> now s3 = now s \<and> env s3 = drop 3 (env s))"
proof -
  obtain g3 s3 where get3: "client_Get k s2 = (g3, s3)" by (cases "client_Get k s2")
  have frame: "sleeps s3 = sleeps s \<and> now s3 = now s \<and> env s3 = drop 3 (env s)"
    using client_Get_frame [OF assms(3)] client_Exists_frame [OF assms(5)] client_Get_frame [OF get3]
    by (simp add: drop_Suc tl_drop eval_nat_numeral drop_tl)
  have eq: "wait_loop unmarshal k lockKey deadline cx backoff s =
      Some (case client_Get k s2 of
              (Inr v, s3) \<Rightarrow> (decode unmarshal v, s3)
            | (Inl e, s3) \<Rightarrow> (Inl (New ''fetch operation failed or cache not populated''), s3))"
    using assms by (subst wait_loop.simps) (simp split: prod.splits sum.splits)
  show ?thesis
    using eq frame get3 by (cases g3) simp_all
qed

text \<open>
  Both outcomes of the last read. First the winner's write lands between the check of
  the lock and the last read: the waiter returns the value. Then nothing is written:
  the waiter returns the error.
\<close>

theorem lock_gone_last_read_witness:
  "wait_loop Inr ''k'' ''k:lock'' 30000000000 Background 10000000
     \<lparr>store = Map.empty, env = [Quiet, Quiet, Interfere (\<lambda>st. st(''k'' \<mapsto> (''v'', 60000)))],
      now = 0, sleeps = []\<rparr>
   = Some (Inr ''v'', \<lparr>store = [''k'' \<mapsto> (''v'', 60000)], env = [], now = 0, sleeps = []\<rparr>)
   \<and> wait_loop Inr ''k'' ''k:lock'' 30000000000 Background 10000000
     \<lparr>store = Map.empty, env = [], now = 0, sleeps = []\<rparr>
   = Some (Inl (New ''fetch operation failed or cache not populated'') :: error + string,
           \<lparr>store = Map.empty, env = [], now = 0, sleeps = []\<rparr>)"
proof -
  let ?i = "Interfere (\<lambda>st. st(''k'' \<mapsto> (''v'', 60000 :: int)))"
  let ?a = "\<lparr>store = Map.empty, env = [Quiet, Quiet, ?i], now = 0, sleeps = []\<rparr>"
  let ?a1 = "\<lparr>store = Map.empty, env = [Quiet, ?i], now = 0, sleeps = []\<rparr>"
  let ?a2 = "\<lparr>store = Map.empty, env = [?i], now = 0, sleeps = []\<rparr>"
  let ?b = "\<lparr>store = Map.empty, env = [], now = 0, sleeps = []\<rparr>"
  have poll: "ctx_Done Background = (None, Background)" by simp
  have nil: "errors_Is RedisNil RedisNil" by simp
  have a0: "\<not> 30000000000 < now ?a" and b0: "\<not> 30000000000 < now ?b" by simp_all
  have a1: "client_Get ''k'' ?a = (Inl RedisNil, ?a1)" by (simp add: event_eval)
  have a2: "client_Exists ''k:lock'' ?a1 = (Inr 0, ?a2)" by (simp add: event_eval)
  have b1: "client_Get ''k'' ?b = (Inl RedisNil, ?b)" by (simp add: event_eval)
  have b2: "client_Exists ''k:lock'' ?b = (Inr 0, ?b)" by (simp add: event_eval)
  from lock_gone_last_read [OF poll a0 a1 nil a2, of Inr 10000000]
  have A: "wait_loop Inr ''k'' ''k:lock'' 30000000000 Background 10000000 ?a
     = Some (Inr ''v'', \<lparr>store = [''k'' \<mapsto> (''v'', 60000)], env = [], now = 0, sleeps = []\<rparr>)"
    by (simp add: event_eval decode_def)
  from lock_gone_last_read [OF poll b0 b1 nil b2, of Inr 10000000]
  have B: "wait_loop Inr ''k'' ''k:lock'' 30000000000 Background 10000000 ?b
     = Some (Inl (New ''fetch operation failed or cache not populated'') :: error + string, ?b)"
    by (simp add: event_eval)
  from A B show ?thesis by simp
qed

subsection \<open>Hits and failed fetches\<close>

lemma lock_key_neq: "lock_key k \<noteq> k"
  by (simp add: lock_key_def)

lemma extendLock_held:
  "env s = [] \<Longrightarrow> store s lk = Some (tok, 30000) \<Longrightarrow> extendLock n lk tok lockTTL s = s"
proof (induction n)
  case 0
  show ?case by simp
next
  case (Suc n)
  have "(store s)(lk \<mapsto> (tok, 30000)) = store s"
    using Suc.prems(2) by (simp add: map_upd_triv)
  then have "extend_once lk tok lockTTL s = s"
    using Suc.prems
    by (simp add: extend_once_quiet extend_script_effect Milliseconds_lockTTL)
  with Suc show ?case by simp
qed

text \<open>
  A miss in a quiet environment with the lock free: the caller takes the lock, fetches
  and gives the lock back. All that stays of the call is the entry, when the fetch and
  the codec succeed.
\<close>

lemma redis_idle_miss:
  assumes quiet: "env s = []" and absent: "store s k = None" and free: "store s (lock_key k) = None"
  shows "redisCacher_GetOrFetch marshal unmarshal ticks lockValue cx k ttl fetchFn s w =
     Some (case fetchFn cx w of
        (Inl err, w') \<Rightarrow> (Inl (Wrap ''fetch function failed'' err), s, w')
      | (Inr result, w') \<Rightarrow>
          (case marshal result of
             Inl err \<Rightarrow> (Inl (Wrap ''failed to marshal result'' err), s, w')
           | Inr data \<Rightarrow>
               (Inr result, s\<lparr>store := (store s)(k \<mapsto> (data, Milliseconds ttl))\<rparr>, w')))"
proof -
  let ?lk = "lock_key k"
  let ?s2 = "s\<lparr>store := (store s)(?lk \<mapsto> (lockValue, 30000))\<rparr>"
  have get: "client_Get k s = (Inl RedisNil, s)"
    using quiet absent by (simp add: client_Get_def command_quiet GET_def)
  have setnx: "client_SetNX ?lk lockValue lockTTL s = (Inr True, ?s2)"
    using quiet free by (simp add: client_SetNX_def command_quiet SETNX_def Milliseconds_lockTTL)
  have ext: "extendLock ticks ?lk lockValue lockTTL ?s2 = ?s2"
    using quiet by (simp add: extendLock_held)
  have idem: "(store s)(?lk := None) = store s"
    using free by (simp add: fun_upd_idem)
  have rel: "release_lock ?lk lockValue ?s2 = s"
    using quiet idem by (simp add: release_lock_quiet release_script_effect)
  have rel': "release_lock ?lk lockValue
        (s\<lparr>store := (store s)(?lk \<mapsto> (lockValue, 30000), k \<mapsto> e)\<rparr>)
      = s\<lparr>store := (store s)(k \<mapsto> e)\<rparr>" for e
  proof -
    have "((store s)(?lk \<mapsto> (lockValue, 30000), k \<mapsto> e))(?lk := None) = (store s)(k \<mapsto> e)"
      using free lock_key_neq [of k] by (auto simp add: fun_eq_iff)
    then show ?thesis
      using quiet lock_key_neq [of k]
      by (simp add: release_lock_quiet release_script_effect)
  qed
  have wr: "client_Set k data ttl ?s2 = (Inr (), ?s2\<lparr>store := (store ?s2)(k \<mapsto> (data, Milliseconds ttl))\<rparr>)"
    for data
    using quiet by (simp add: client_Set_def command_quiet SET_def)
  show ?thesis
    unfolding redisCacher_GetOrFetch_def fetch_and_store_def
    by (simp add: get setnx ext wr rel rel' del: fun_upd_apply split: prod.splits sum.splits)
qed

text \<open>
  C5. A hit takes no lock. Redis variant: when the first read returns a value the call
  returns what the value decodes to, and the call is that one \<^verbatim>\<open>GET\<close>: the store is as
  the environment left it, no lock key is written or removed, nothing is slept; in a
  quiet environment the whole state is as before. In-memory variant: a hit returns the
  value and leaves the table, the group and the caller's world as they are.
\<close>

theorem hit_takes_no_lock:
  "(client_Get k s = (Inr v, s1) \<longrightarrow>
      redisCacher_GetOrFetch marshal unmarshal ticks lockValue cx k ttl fetchFn s w =
        Some (decode unmarshal v, s1, w)
      \<and> store s1 = (case fst (next_event s) of Interfere g \<Rightarrow> g (store s) | _ \<Rightarrow> store s)
      \<and> now s1 = now s \<and> sleeps s1 = sleeps s)
   \<and> (env s = [] \<longrightarrow> (\<forall>t. store s k = Some (v, t) \<longrightarrow>
      redisCacher_GetOrFetch marshal unmarshal ticks lockValue cx k ttl fetchFn s w =
        Some (decode unmarshal v, s, w)))
   \<and> (try_cache assertT (cache m) k = Some x \<longrightarrow>
      MemoryCacher_GetOrFetch box assertT cx k ttl fetchFn' m w' = (Inr x, m, w'))"
proof -
  have quiet: "client_Get k s = (Inr v, s)" if "env s = []" and "store s k = Some (v, t)" for t
    using that by (simp add: client_Get_def command_quiet GET_def)
  show ?thesis
    using redis_hit [of k s v s1 marshal unmarshal ticks lockValue cx ttl fetchFn w]
      redis_hit [of k s v s marshal unmarshal ticks lockValue cx ttl fetchFn w]
      client_Get_store [of k s "Inr v" s1] client_Get_frame [of k s "Inr v" s1]
      quiet memory_hit [of assertT m k x box cx ttl fetchFn' w']
    by blast
qed

text \<open>
  \<open>''user:1''\<close> is cached while another caller holds the lock key of \<open>''user:1''\<close>: the
  call returns the value and the lock is as it was. The fetch function has not run. The
  same for the in-memory variant, with a call in flight for the key.
\<close>

theorem hit_takes_no_lock_witness:
  "redisCacher_GetOrFetch Inr Inr 0 ''17'' Background ''user:1'' Second
     (\<lambda>cx n. (Inr ''fetched'', Suc n))
     \<lparr>store = [''user:1'' \<mapsto> (''alice'', 1000), ''user:1:lock'' \<mapsto> (''16'', 30000)],
      env = [], now = 0, sleeps = []\<rparr> (0::nat)
   = Some (Inr ''alice'',
       \<lparr>store = [''user:1'' \<mapsto> (''alice'', 1000), ''user:1:lock'' \<mapsto> (''16'', 30000)],
        env = [], now = 0, sleeps = []\<rparr>, 0)
   \<and> MemoryCacher_GetOrFetch Some (\<lambda>d. d) Background ''user:1'' Second
     (\<lambda>cx n. (Inr ''fetched'', Suc n))
     \<lparr>cache = [''user:1'' \<mapsto> (Some ''alice'', Second)], flights = [''user:1'' \<mapsto> Inr (Some ''bob'')]\<rparr>
     (0::nat)
   = (Inr ''alice'',
      \<lparr>cache = [''user:1'' \<mapsto> (Some ''alice'', Second)], flights = [''user:1'' \<mapsto> Inr (Some ''bob'')]\<rparr>,
      0)"
proof -
  let ?s = "\<lparr>store = [''user:1'' \<mapsto> (''alice'', 1000), ''user:1:lock'' \<mapsto> (''16'', 30000)],
      env = [], now = 0, sleeps = []\<rparr>"
  let ?m = "\<lparr>cache = [''user:1'' \<mapsto> (Some ''alice'', Second)],
      flights = [''user:1'' \<mapsto> Inr (Some ''bob'') :: error + string option]\<rparr>"
  have quiet: "env ?s = []" by simp
  have present: "store ?s ''user:1'' = Some (''alice'', 1000)" by simp
  have hit: "try_cache (\<lambda>d. d) (cache ?m) ''user:1'' = Some ''alice''"
    by (simp add: try_cache_def cache_Get_def)
  from hit_takes_no_lock [of "''user:1''" ?s "''alice''" ?s Inr Inr 0 "''17''" Background Second
      "\<lambda>cx n. (Inr ''fetched'', Suc n)" "0::nat" "\<lambda>d. d" ?m "''alice''" Some
      "\<lambda>cx n. (Inr ''fetched'', Suc n)" "0::nat"]
    quiet present hit
  show ?thesis by (simp add: decode_def)
qed

text \<open>
  C2. The fetch function returns an error. In-memory variant, on a miss with no call
  in flight: the call returns the error, the table is not written and no registration
  is left (the cacher is as before), and the next call for the key runs its fetch
  function. Redis variant, on a miss with the lock free and a quiet environment (the
  commands get through, no other client writes): the call returns the error wrapped
  (\<^verbatim>\<open>fetch function failed: ...\<close>), no entry is written and the lock key is gone again
  (the store is as before), and the next call for the key runs its fetch function.
\<close>

theorem failed_fetch_is_not_cached:
  assumes "fetchFn cx w = (Inl err, w1)"
  shows "(try_cache assertT (cache m) k = None \<and> flights m k = None \<longrightarrow>
      MemoryCacher_GetOrFetch box assertT cx k ttl fetchFn m w = (Inl err, m, w1)
      \<and> (\<forall>cx2 ttl2 fetchFn2.
            snd (snd (MemoryCacher_GetOrFetch box assertT cx2 k ttl2 fetchFn2 m w1))
              = snd (fetchFn2 cx2 w1)))
   \<and> (env s = [] \<and> store s k = None \<and> store s (lock_key k) = None \<longrightarrow>
      redisCacher_GetOrFetch marshal unmarshal ticks lockValue cx k ttl fetchFn s w
        = Some (Inl (Wrap ''fetch function failed'' err), s, w1)
      \<and> (\<forall>ticks2 lockValue2 cx2 ttl2 fetchFn2.
            map_option (\<lambda>(r, s', w'). w')
              (redisCacher_GetOrFetch marshal unmarshal ticks2 lockValue2 cx2 k ttl2 fetchFn2 s w1)
              = Some (snd (fetchFn2 cx2 w1))))"
proof -
  have mem: "MemoryCacher_GetOrFetch box assertT cx k ttl fetchFn m w = (Inl err, m, w1)"
    if "try_cache assertT (cache m) k = None" and "flights m k = None"
    using assms by (simp add: memory_idle_miss [OF that])
  have mem2: "snd (snd (MemoryCacher_GetOrFetch box assertT cx2 k ttl2 fetchFn2 m w1))
              = snd (fetchFn2 cx2 w1)"
    if "try_cache assertT (cache m) k = None" and "flights m k = None" for cx2 ttl2 fetchFn2
    by (simp add: memory_idle_miss [OF that] split: prod.splits sum.splits)
  have red: "redisCacher_GetOrFetch marshal unmarshal ticks lockValue cx k ttl fetchFn s w
        = Some (Inl (Wrap ''fetch function failed'' err), s, w1)"
    if "env s = []" and "store s k = None" and "store s (lock_key k) = None"
    using assms by (simp add: redis_idle_miss [OF that])
  have red2: "map_option (\<lambda>(r, s', w'). w')
              (redisCacher_GetOrFetch marshal unmarshal ticks2 lockValue2 cx2 k ttl2 fetchFn2 s w1)
              = Some (snd (fetchFn2 cx2 w1))"
    if "env s = []" and "store s k = None" and "store s (lock_key k) = None"
    for ticks2 lockValue2 cx2 ttl2 fetchFn2
    by (simp add: redis_idle_miss [OF that] split: prod.splits sum.splits)
  from mem mem2 red red2 show ?thesis by blast
qed

text \<open>
  The package's test \<^verbatim>\<open>GetOrFetch_FetchError\<close>, on both variants: the first fetch
  function fails, the second one returns \<open>''new''\<close>; both count their calls. After the
  failed call the counter is 1 and the cacher is empty; the next call fetches again
  (the counter is 2).
\<close>

theorem failed_fetch_is_not_cached_witness:
  "MemoryCacher_GetOrFetch Some (\<lambda>d. d) Background ''key'' Second
     (\<lambda>cx n. (Inl (New ''assert.AnError''), Suc n))
     \<lparr>cache = Map.empty, flights = Map.empty\<rparr> (0::nat)
   = (Inl (New ''assert.AnError'') :: error + string,
      \<lparr>cache = Map.empty, flights = Map.empty\<rparr>, 1)
   \<and> snd (snd (MemoryCacher_GetOrFetch Some (\<lambda>d. d) Background ''key'' Second
     (\<lambda>cx n. (Inr ''new'', Suc n))
     \<lparr>cache = Map.empty, flights = Map.empty\<rparr> (1::nat))) = 2
   \<and> redisCacher_GetOrFetch Inr Inr 0 ''17'' Background ''key'' Second
     (\<lambda>cx n. (Inl (New ''assert.AnError''), Suc n))
     \<lparr>store = Map.empty, env = [], now = 0, sleeps = []\<rparr> (0::nat)
   = Some (Inl (Wrap ''fetch function failed'' (New ''assert.AnError'')) :: error + string,
       \<lparr>store = Map.empty, env = [], now = 0, sleeps = []\<rparr>, 1)
   \<and> map_option (\<lambda>(r :: error + string, s', w'). w')
       (redisCacher_GetOrFetch Inr Inr 0 ''18'' Background ''key'' Second
         (\<lambda>cx n. (Inr ''new'', Suc n))
         \<lparr>store = Map.empty, env = [], now = 0, sleeps = []\<rparr> (1::nat)) = Some 2"
proof -
  let ?F = "\<lambda>(cx :: ctx) (n :: nat). (Inl (New ''assert.AnError'') :: error + string, Suc n)"
  let ?m = "\<lparr>cache = Map.empty, flights = Map.empty\<rparr> :: string option MemoryCacher"
  let ?s = "\<lparr>store = Map.empty, env = [], now = 0, sleeps = []\<rparr>"
  have fails: "?F Background 0 = (Inl (New ''assert.AnError''), 1)" by simp
  have miss: "try_cache (\<lambda>d. d) (cache ?m) ''key'' = None \<and> flights ?m ''key'' = None"
    by (simp add: try_cache_def cache_Get_def)
  have cold: "env ?s = [] \<and> store ?s ''key'' = None \<and> store ?s (lock_key ''key'') = None"
    by simp
  note inst = failed_fetch_is_not_cached [where fetchFn = ?F and cx = Background and w = 0
      and err = "New ''assert.AnError''" and ?w1.0 = 1 and assertT = "\<lambda>d. d" and m = ?m
      and k = "''key''" and box = Some and ttl = Second and s = ?s and marshal = Inr
      and unmarshal = Inr and ticks = 0 and lockValue = "''17''", OF fails]
  note mem = inst [THEN conjunct1, THEN mp, OF miss]
  note red = inst [THEN conjunct2, THEN mp, OF cold]
  note a = mem [THEN conjunct1]
  note b = mem [THEN conjunct2, THEN spec, THEN spec, THEN spec,
      of Background Second "\<lambda>cx n. (Inr ''new'', Suc n)"]
  note c = red [THEN conjunct1]
  note d = red [THEN conjunct2, THEN spec, THEN spec, THEN spec, THEN spec, THEN spec,
      of 0 "''18''" Background Second "\<lambda>cx n. (Inr ''new'', Suc n)"]
  from a b c d show ?thesis by (simp add: numeral_2_eq_2)
qed

text \<open>
  C7. The in-memory variant returns the error of the fetch function as it is. The Redis
  variant does not: on a cold cache, with a fetch function that fails with
  \<^verbatim>\<open>errors.New("user not found")\<close>, \<^verbatim>\<open>GetOrFetch\<close> returns
  \<^verbatim>\<open>fmt.Errorf("fetch function failed: %w", err)\<close>, another error value, which wraps
  the fetch function's error.
\<close>

theorem redis_wraps_fetch_error:
  "redisCacher_GetOrFetch Inr Inr 0 ''17'' Background ''user:1'' Second
     (\<lambda>cx n. (Inl (New ''user not found''), Suc n))
     \<lparr>store = Map.empty, env = [], now = 0, sleeps = []\<rparr> (0::nat)
   = Some (Inl (Wrap ''fetch function failed'' (New ''user not found'')) :: error + string,
       \<lparr>store = Map.empty, env = [], now = 0, sleeps = []\<rparr>, 1)
   \<and> Wrap ''fetch function failed'' (New ''user not found'') \<noteq> New ''user not found''
   \<and> errors_Is (Wrap ''fetch function failed'' (New ''user not found'')) (New ''user not found'')
   \<and> MemoryCacher_GetOrFetch Some (\<lambda>d. d) Background ''user:1'' Second
     (\<lambda>cx n. (Inl (New ''user not found''), Suc n))
     \<lparr>cache = Map.empty, flights = Map.empty\<rparr> (0::nat)
   = (Inl (New ''user not found'') :: error + string,
      \<lparr>cache = Map.empty, flights = Map.empty\<rparr>, 1)"
proof -
  let ?s = "\<lparr>store = Map.empty, env = [], now = 0, sleeps = []\<rparr>"
  let ?m = "\<lparr>cache = Map.empty, flights = Map.empty\<rparr> :: string option MemoryCacher"
  have r: "redisCacher_GetOrFetch Inr Inr 0 ''17'' Background ''user:1'' Second
     (\<lambda>cx n. (Inl (New ''user not found''), Suc n)) ?s (0::nat)
   = Some (Inl (Wrap ''fetch function failed'' (New ''user not found'')) :: error + string, ?s, 1)"
    by (subst redis_idle_miss) simp_all
  have m: "MemoryCacher_GetOrFetch Some (\<lambda>d. d) Background ''user:1'' Second
     (\<lambda>cx n. (Inl (New ''user not found''), Suc n)) ?m (0::nat)
   = (Inl (New ''user not found'') :: error + string, ?m, 1)"
    by (subst memory_idle_miss) (simp_all add: try_cache_def cache_Get_def)
  from r m show ?thesis by simp
qed

subsection \<open>Deleting by prefix\<close>

lemma delete_loop_Background:
  "delete_loop Background pre ks c n =
     ((n + length (filter (prefix pre) ks), None),
      (\<lambda>k. if k \<in> set ks \<and> prefix pre k then None else c k))"
proof (induction ks arbitrary: c n)
  case Nil
  show ?case by simp
next
  case (Cons a ks)
  show ?case
    by (auto simp add: Cons.IH cache_Delete_def fun_eq_iff)
qed

lemma delete_loop_CancelAfter:
  "delete_loop (CancelAfter i err) pre ks c n =
     ((n + length (filter (prefix pre) (take i ks)), if i < length ks then Some err else None),
      (\<lambda>k. if k \<in> set (take i ks) \<and> prefix pre k then None else c k))"
proof (induction ks arbitrary: i c n)
  case Nil
  show ?case by simp
next
  case (Cons a ks)
  show ?case
  proof (cases i)
    case 0
    then show ?thesis by simp
  next
    case (Suc j)
    then show ?thesis
      by (auto simp add: Cons.IH cache_Delete_def fun_eq_iff)
  qed
qed

lemma scan_loop_Background:
  "scan_loop Background pre ks acc = Inr (acc @ filter (prefix pre) ks)"
  by (induction ks arbitrary: acc) simp_all

lemma scan_loop_CancelAfter:
  "scan_loop (CancelAfter i err) pre ks acc =
     (if i < length ks then Inl err else Inr (acc @ filter (prefix pre) ks))"
proof (induction ks arbitrary: i acc)
  case Nil
  show ?case by simp
next
  case (Cons a ks)
  show ?case by (cases i) (simp_all add: Cons.IH)
qed

lemma del_keys_effect:
  "del_keys ks st = (card (set ks \<inter> dom st), (\<lambda>k. if k \<in> set ks then None else st k))"
proof (induction ks arbitrary: st)
  case Nil
  show ?case by simp
next
  case (Cons a ks)
  have fin: "finite (set ks \<inter> dom st - {a})" by simp
  have dom: "set ks \<inter> dom (st(a := None)) = set ks \<inter> dom st - {a}"
    by auto
  have cnt: "card (set (a # ks) \<inter> dom st) = (if st a = None then 0 else 1) + card (set ks \<inter> dom st - {a})"
  proof (cases "st a")
    case None
    then have "set (a # ks) \<inter> dom st = set ks \<inter> dom st - {a}" by auto
    with None show ?thesis by simp
  next
    case (Some e)
    then have split: "set (a # ks) \<inter> dom st = insert a (set ks \<inter> dom st - {a})" by auto
    have "card (insert a (set ks \<inter> dom st - {a})) = Suc (card (set ks \<inter> dom st - {a}))"
      by (rule card_insert_disjoint [OF fin]) simp
    then have "card (set (a # ks) \<inter> dom st) = Suc (card (set ks \<inter> dom st - {a}))"
      by (simp only: split)
    with Some show ?thesis by simp
  qed
  have rest: "(\<lambda>k. if k \<in> set ks then None else (st(a := None)) k)
      = (\<lambda>k. if k \<in> set (a # ks) then None else st k)"
    by (auto simp add: fun_eq_iff)
  have "del_keys (a # ks) st =
      ((if st a = None then 0 else 1) + card (set ks \<inter> dom (st(a := None))),
       (\<lambda>k. if k \<in> set ks then None else (st(a := None)) k))"
    by (simp add: Cons.IH del: fun_upd_apply)
  then show ?case
    by (simp only: dom cnt rest)
qed

lemma card_deleted:
  assumes "distinct ks" and "set ks \<subseteq> dom c"
  shows "card (dom c - dom (\<lambda>k. if k \<in> set (take j ks) \<and> P k then None else c k))
         = length (filter P (take j ks))"
proof -
  have eq: "dom c - dom (\<lambda>k. if k \<in> set (take j ks) \<and> P k then None else c k)
        = set (filter P (take j ks))"
    using assms(2) set_take_subset [of j ks] by (auto split: if_splits)
  have "distinct (filter P (take j ks))"
    using assms(1) by simp
  then have "card (set (filter P (take j ks))) = length (filter P (take j ks))"
    by (rule distinct_card)
  then show ?thesis
    by (simp only: eq)
qed

lemma deleted_prefix_of_table:
  assumes d: "distinct items" and all: "set items = dom c"
    and form: "c' = (\<lambda>k. if k \<in> set (take j items) \<and> prefix pre k then None else c k)"
    and n: "n = length (filter (prefix pre) (take j items))"
  shows "n = card (dom c - dom c')"
    and "\<forall>k \<in> dom c - dom c'. prefix pre k"
    and "\<forall>k \<in> dom c'. c' k = c k"
    and "length items \<le> j \<longrightarrow>
           n = card {k \<in> dom c. prefix pre k} \<and> dom c' = {k \<in> dom c. \<not> prefix pre k}"
proof -
  have sub: "set items \<subseteq> dom c" using all by simp
  show 1: "n = card (dom c - dom c')"
    unfolding form n using card_deleted [OF d sub, of j "prefix pre"] by simp
  show "\<forall>k \<in> dom c - dom c'. prefix pre k"
    unfolding form by (auto split: if_splits)
  show "\<forall>k \<in> dom c'. c' k = c k"
    unfolding form by (auto split: if_splits)
  show "length items \<le> j \<longrightarrow>
           n = card {k \<in> dom c. prefix pre k} \<and> dom c' = {k \<in> dom c. \<not> prefix pre k}"
  proof
    assume "length items \<le> j"
    then have whole: "take j items = items" by simp
    have dom: "dom c' = {k \<in> dom c. \<not> prefix pre k}"
      unfolding form whole using all by (auto split: if_splits)
    have "dom c - dom c' = {k \<in> dom c. prefix pre k}"
      unfolding dom by auto
    with 1 dom show "n = card {k \<in> dom c. prefix pre k} \<and> dom c' = {k \<in> dom c. \<not> prefix pre k}"
      by simp
  qed
qed

lemma memory_delete_Background:
  "MemoryCacher_DeleteByPrefix Background pre items m =
     ((length (filter (prefix pre) (take (length items) items)), None),
      m\<lparr>cache := (\<lambda>k. if k \<in> set (take (length items) items) \<and> prefix pre k then None
                      else cache m k)\<rparr>)"
  by (simp add: MemoryCacher_DeleteByPrefix_def delete_loop_Background)

lemma memory_delete_done:
  "MemoryCacher_DeleteByPrefix (CancelAfter 0 err) pre items m = ((0, Some err), m)"
  by (simp add: MemoryCacher_DeleteByPrefix_def)

lemma memory_delete_CancelAfter:
  "MemoryCacher_DeleteByPrefix (CancelAfter (Suc i) err) pre items m =
     ((length (filter (prefix pre) (take i items)), if i < length items then Some err else None),
      m\<lparr>cache := (\<lambda>k. if k \<in> set (take i items) \<and> prefix pre k then None else cache m k)\<rparr>)"
  by (simp add: MemoryCacher_DeleteByPrefix_def delete_loop_CancelAfter)

lemma memory_delete_by_prefix:
  assumes d: "distinct items" and all: "set items = dom (cache m)"
    and run: "MemoryCacher_DeleteByPrefix cx pre items m = ((n, e), m')"
  shows "n = card (dom (cache m) - dom (cache m'))
    \<and> (\<forall>k \<in> dom (cache m) - dom (cache m'). prefix pre k)
    \<and> (\<forall>k \<in> dom (cache m'). cache m' k = cache m k)
    \<and> (\<forall>i err. cx = CancelAfter i err \<and> i \<le> length items \<longrightarrow>
           e = Some err \<and> n = length (filter (prefix pre) (take (i - 1) items)))
    \<and> (cx = Background \<longrightarrow> e = None \<and> n = card {k \<in> dom (cache m). prefix pre k}
           \<and> dom (cache m') = {k \<in> dom (cache m). \<not> prefix pre k})"
proof (cases cx)
  case Background
  from run [unfolded Background memory_delete_Background]
  have n: "n = length (filter (prefix pre) (take (length items) items))" and e: "e = None"
    and c: "cache m' = (\<lambda>k. if k \<in> set (take (length items) items) \<and> prefix pre k then None
                      else cache m k)"
    by auto
  note r = deleted_prefix_of_table [OF d all c n]
  from r(4) have whole: "n = card {k \<in> dom (cache m). prefix pre k}
      \<and> dom (cache m') = {k \<in> dom (cache m). \<not> prefix pre k}"
    by simp
  from r(1-3) whole e Background show ?thesis by blast
next
  case (CancelAfter i err)
  show ?thesis
  proof (cases i)
    case 0
    from run [unfolded CancelAfter 0 memory_delete_done]
    have n: "n = length (filter (prefix pre) (take 0 items))" and e: "e = Some err"
      and c: "cache m' = (\<lambda>k. if k \<in> set (take 0 items) \<and> prefix pre k then None else cache m k)"
      by auto
    note r = deleted_prefix_of_table(1-3) [OF d all c n]
    have "\<forall>i' err'. cx = CancelAfter i' err' \<and> i' \<le> length items \<longrightarrow>
           e = Some err' \<and> n = length (filter (prefix pre) (take (i' - 1) items))"
      using e n CancelAfter 0 by simp
    with r CancelAfter show ?thesis by blast
  next
    case (Suc i')
    from run [unfolded CancelAfter Suc memory_delete_CancelAfter]
    have n: "n = length (filter (prefix pre) (take i' items))"
      and e: "e = (if i' < length items then Some err else None)"
      and c: "cache m' = (\<lambda>k. if k \<in> set (take i' items) \<and> prefix pre k then None else cache m k)"
      by auto
    note r = deleted_prefix_of_table(1-3) [OF d all c n]
    have "\<forall>i'' err'. cx = CancelAfter i'' err' \<and> i'' \<le> length items \<longrightarrow>
           e = Some err' \<and> n = length (filter (prefix pre) (take (i'' - 1) items))"
      using e n CancelAfter Suc by simp
    with r CancelAfter show ?thesis by blast
  qed
qed

lemma client_Del_quiet:
  "env s = [] \<Longrightarrow> client_Del ks s =
      (Inr (card (set ks \<inter> dom (store s))),
       s\<lparr>store := (\<lambda>k. if k \<in> set ks then None else store s k)\<rparr>)"
  by (simp add: client_Del_def command_quiet DEL_def del_keys_effect)

lemma redis_delete_quiet:
  assumes "env s = []"
  shows "redisCacher_DeleteByPrefix cx pre scanned scan_err s =
     (case scan_loop cx pre scanned [] of
        Inl err \<Rightarrow> ((0, Some err), s)
      | Inr ks \<Rightarrow>
          (case scan_err of
             Some err \<Rightarrow> ((0, Some (Wrap ''failed to scan keys'' err)), s)
           | None \<Rightarrow>
               (if ks = [] then ((0, None), s)
                else ((card (set ks \<inter> dom (store s)), None),
                      s\<lparr>store := (\<lambda>k. if k \<in> set ks then None else store s k)\<rparr>))))"
  by (simp add: redisCacher_DeleteByPrefix_def client_Del_quiet [OF assms]
      split: sum.splits option.splits)

lemma redis_delete_by_prefix:
  assumes quiet: "env s = []"
    and run: "redisCacher_DeleteByPrefix cx pre scanned scan_err s = ((n, e), s')"
  shows "n = card (dom (store s) - dom (store s'))"
    and "\<forall>k \<in> dom (store s) - dom (store s'). prefix pre k"
    and "\<forall>k \<in> dom (store s'). store s' k = store s k"
    and "\<forall>i err. cx = CancelAfter i err \<and> i < length scanned \<longrightarrow> e = Some err \<and> n = 0 \<and> s' = s"
    and "cx = Background \<and> scan_err = None \<longrightarrow>
           e = None \<and> dom (store s') = dom (store s) - {k \<in> set scanned. prefix pre k}"
proof -
  let ?ks = "filter (prefix pre) scanned"
  let ?gone = "s\<lparr>store := (\<lambda>k. if k \<in> set ?ks then None else store s k)\<rparr>"
  note form = run [unfolded redis_delete_quiet [OF quiet]]
  have cancelled: "e = Some err \<and> n = 0 \<and> s' = s"
    if "cx = CancelAfter i err" and "i < length scanned" for i err
    using form that by (simp add: scan_loop_CancelAfter)
  have scanned: "(n, e, s') = (if ?ks = [] then (0, None, s)
      else (card (set ?ks \<inter> dom (store s)), None, ?gone))"
    if "scan_loop cx pre scanned [] = Inr ks" and "scan_err = None" for ks
  proof -
    have "ks = ?ks"
      using that(1) by (cases cx) (simp_all add: scan_loop_Background scan_loop_CancelAfter split: if_splits)
    with form that show ?thesis by (simp split: if_splits)
  qed
  have cases: "(s' = s \<and> n = 0) \<or> (s' = ?gone \<and> n = card (set ?ks \<inter> dom (store s)))"
  proof (cases "scan_loop cx pre scanned []")
    case (Inl err)
    with form show ?thesis by simp
  next
    case (Inr ks)
    show ?thesis
    proof (cases scan_err)
      case (Some err)
      with form Inr show ?thesis by simp
    next
      case None
      from scanned [OF Inr None] show ?thesis by (simp split: if_splits)
    qed
  qed
  have gone: "dom (store s) - dom (store ?gone) = set ?ks \<inter> dom (store s)"
    by (auto split: if_splits)
  from cases show "n = card (dom (store s) - dom (store s'))"
  proof
    assume "s' = s \<and> n = 0"
    then show ?thesis by simp
  next
    assume "s' = ?gone \<and> n = card (set ?ks \<inter> dom (store s))"
    then show ?thesis by (simp only: gone)
  qed
  from cases show "\<forall>k \<in> dom (store s) - dom (store s'). prefix pre k"
  proof
    assume "s' = s \<and> n = 0"
    then show ?thesis by simp
  next
    assume "s' = ?gone \<and> n = card (set ?ks \<inter> dom (store s))"
    then have "dom (store s) - dom (store s') = set ?ks \<inter> dom (store s)"
      by (simp only: gone)
    then show ?thesis by simp
  qed
  from cases show "\<forall>k \<in> dom (store s'). store s' k = store s k"
  proof
    assume "s' = s \<and> n = 0"
    then show ?thesis by simp
  next
    assume "s' = ?gone \<and> n = card (set ?ks \<inter> dom (store s))"
    then have "store s' = (\<lambda>k. if k \<in> set ?ks then None else store s k)"
      by simp
    then show ?thesis by (simp add: dom_def)
  qed
  show "\<forall>i err. cx = CancelAfter i err \<and> i < length scanned \<longrightarrow> e = Some err \<and> n = 0 \<and> s' = s"
    using cancelled by blast
  show "cx = Background \<and> scan_err = None \<longrightarrow>
           e = None \<and> dom (store s') = dom (store s) - {k \<in> set scanned. prefix pre k}"
  proof
    assume a: "cx = Background \<and> scan_err = None"
    then have "scan_loop cx pre scanned [] = Inr ?ks"
      by (simp add: scan_loop_Background)
    from scanned [OF this] a
    have unfolded: "(n, e, s') = (if ?ks = [] then (0, None, s)
      else (card (set ?ks \<inter> dom (store s)), None, ?gone))"
      by simp
    show "e = None \<and> dom (store s') = dom (store s) - {k \<in> set scanned. prefix pre k}"
    proof (cases "?ks = []")
      case True
      then have "{k \<in> set scanned. prefix pre k} = {}"
        by (simp add: filter_empty_conv)
      moreover from True unfolded have "e = None \<and> s' = s" by simp
      ultimately show ?thesis by auto
    next
      case False
      with unfolded have "e = None"
        and st: "store s' = (\<lambda>k. if k \<in> set ?ks then None else store s k)"
        by simp_all
      have "dom (store s') = dom (store s) - set ?ks"
        unfolding st by (auto split: if_splits)
      with \<open>e = None\<close> show ?thesis by auto
    qed
  qed
qed

text \<open>
  C8. \<^verbatim>\<open>DeleteByPrefix\<close> returns the number of keys it has deleted, whether it is
  cancelled or not, and deletes only keys that start with the prefix; the other entries
  stay as they are. In-memory variant, \<open>items\<close> being the keys of the table in the
  order of the loop: a context that is done at the first check or becomes done during
  the scan makes the call return its error with the count of the keys deleted until
  then (the keys with the prefix among those the loop had visited); with a context that
  is never done the call returns no error and the number of all keys with the prefix,
  and exactly these are gone. Redis variant, in a quiet environment: a context that
  becomes done during the scan makes the call return its error with the count 0, and
  nothing is deleted (the keys are deleted in one batch after the scan); with a
  context that is never done and a scan without error the call returns the number of
  keys the \<^verbatim>\<open>DEL\<close> removed, which are the scanned keys with the prefix.
\<close>

theorem delete_by_prefix_counts:
  assumes "distinct items" and "set items = dom (cache m)"
    and "MemoryCacher_DeleteByPrefix cx pre items m = ((n, e), m')"
    and "env s = []"
    and "redisCacher_DeleteByPrefix cx pre scanned scan_err s = ((n', e'), s')"
  shows "(n = card (dom (cache m) - dom (cache m'))
      \<and> (\<forall>k \<in> dom (cache m) - dom (cache m'). prefix pre k)
      \<and> (\<forall>k \<in> dom (cache m'). cache m' k = cache m k)
      \<and> (\<forall>i err. cx = CancelAfter i err \<and> i \<le> length items \<longrightarrow>
             e = Some err \<and> n = length (filter (prefix pre) (take (i - 1) items)))
      \<and> (cx = Background \<longrightarrow> e = None \<and> n = card {k \<in> dom (cache m). prefix pre k}
             \<and> dom (cache m') = {k \<in> dom (cache m). \<not> prefix pre k}))
    \<and> (n' = card (dom (store s) - dom (store s'))
      \<and> (\<forall>k \<in> dom (store s) - dom (store s'). prefix pre k)
      \<and> (\<forall>k \<in> dom (store s'). store s' k = store s k)
      \<and> (\<forall>i err. cx = CancelAfter i err \<and> i < length scanned \<longrightarrow>
             e' = Some err \<and> n' = 0 \<and> s' = s)
      \<and> (cx = Background \<and> scan_err = None \<longrightarrow>
             e' = None \<and> dom (store s') = dom (store s) - {k \<in> set scanned. prefix pre k}))"
  using memory_delete_by_prefix [OF assms(1-3)] redis_delete_by_prefix [OF assms(4,5)]
  by (intro conjI) blast+

text \<open>
  The package's test \<^verbatim>\<open>DeleteByPrefix\<close>: the keys \<open>''user:1''\<close>, \<open>''user:2''\<close> and
  \<open>''order:1''\<close>, the prefix \<open>''user:''\<close>. With a context that is never done both variants
  return 2 and leave \<open>''order:1''\<close>. With a context that becomes done after the first
  round of the loop the in-memory variant has deleted \<open>''user:1''\<close> and returns 1 with
  the error; the Redis variant has deleted nothing and returns 0 with the error.
\<close>

theorem delete_by_prefix_counts_witness:
  "MemoryCacher_DeleteByPrefix (CancelAfter 2 Canceled) ''user:'' [''user:1'', ''order:1'', ''user:2'']
      \<lparr>cache = [''user:1'' \<mapsto> (''v'', Second), ''order:1'' \<mapsto> (''v'', Second), ''user:2'' \<mapsto> (''v'', Second)],
       flights = Map.empty\<rparr>
    = ((1, Some Canceled),
       \<lparr>cache = [''order:1'' \<mapsto> (''v'', Second), ''user:2'' \<mapsto> (''v'', Second)], flights = Map.empty\<rparr>)
   \<and> redisCacher_DeleteByPrefix (CancelAfter 2 Canceled) ''user:'' [''user:1'', ''user:2'', ''user:1''] None
      \<lparr>store = [''user:1'' \<mapsto> (''v'', 1000), ''order:1'' \<mapsto> (''v'', 1000), ''user:2'' \<mapsto> (''v'', 1000)],
       env = [], now = 0, sleeps = []\<rparr>
    = ((0, Some Canceled),
       \<lparr>store = [''user:1'' \<mapsto> (''v'', 1000), ''order:1'' \<mapsto> (''v'', 1000), ''user:2'' \<mapsto> (''v'', 1000)],
        env = [], now = 0, sleeps = []\<rparr>)
   \<and> MemoryCacher_DeleteByPrefix Background ''user:'' [''user:1'', ''order:1'', ''user:2'']
      \<lparr>cache = [''user:1'' \<mapsto> (''v'', Second), ''order:1'' \<mapsto> (''v'', Second), ''user:2'' \<mapsto> (''v'', Second)],
       flights = Map.empty\<rparr>
    = ((2, None), \<lparr>cache = [''order:1'' \<mapsto> (''v'', Second)], flights = Map.empty\<rparr>)
   \<and> redisCacher_DeleteByPrefix Background ''user:'' [''user:1'', ''user:2'', ''user:1''] None
      \<lparr>store = [''user:1'' \<mapsto> (''v'', 1000), ''order:1'' \<mapsto> (''v'', 1000), ''user:2'' \<mapsto> (''v'', 1000)],
       env = [], now = 0, sleeps = []\<rparr>
    = ((2, None), \<lparr>store = [''order:1'' \<mapsto> (''v'', 1000)], env = [], now = 0, sleeps = []\<rparr>)
   \<and> card (dom [''user:1'' \<mapsto> (''v'', Second), ''order:1'' \<mapsto> (''v'', Second), ''user:2'' \<mapsto> (''v'', Second)]
            - dom [''order:1'' \<mapsto> (''v'', Second), ''user:2'' \<mapsto> (''v'', Second)]) = Suc 0
   \<and> card {k \<in> dom [''user:1'' \<mapsto> (''v'', Second), ''order:1'' \<mapsto> (''v'', Second),
                      ''user:2'' \<mapsto> (''v'', Second)]. prefix ''user:'' k} = 2"
proof -
  let ?items = "[''user:1'', ''order:1'', ''user:2'']"
  let ?scanned = "[''user:1'', ''user:2'', ''user:1'']"
  let ?c = "[''user:1'' \<mapsto> (''v'', Second), ''order:1'' \<mapsto> (''v'', Second), ''user:2'' \<mapsto> (''v'', Second)]"
  let ?m = "\<lparr>cache = ?c, flights = Map.empty :: string Group\<rparr>"
  let ?m1 = "\<lparr>cache = [''order:1'' \<mapsto> (''v'', Second), ''user:2'' \<mapsto> (''v'', Second)],
      flights = Map.empty :: string Group\<rparr>"
  let ?m2 = "\<lparr>cache = [''order:1'' \<mapsto> (''v'', Second)], flights = Map.empty :: string Group\<rparr>"
  let ?s = "\<lparr>store = [''user:1'' \<mapsto> (''v'', 1000), ''order:1'' \<mapsto> (''v'', 1000), ''user:2'' \<mapsto> (''v'', 1000)],
       env = [], now = 0, sleeps = []\<rparr>"
  let ?s2 = "\<lparr>store = [''order:1'' \<mapsto> (''v'', 1000)], env = [], now = 0, sleeps = []\<rparr>"
  have d: "distinct ?items" by simp
  have all: "set ?items = dom (cache ?m)" by auto
  have quiet: "env ?s = []" by simp
  have m1: "MemoryCacher_DeleteByPrefix (CancelAfter 2 Canceled) ''user:'' ?items ?m
      = ((1, Some Canceled), ?m1)"
    by (simp add: memory_delete_CancelAfter eval_nat_numeral fun_eq_iff)
  have r1: "redisCacher_DeleteByPrefix (CancelAfter 2 Canceled) ''user:'' ?scanned None ?s
      = ((0, Some Canceled), ?s)"
    by (simp add: redis_delete_quiet eval_nat_numeral)
  have m2: "MemoryCacher_DeleteByPrefix Background ''user:'' ?items ?m = ((2, None), ?m2)"
    by (simp add: memory_delete_Background fun_eq_iff)
  have r2: "redisCacher_DeleteByPrefix Background ''user:'' ?scanned None ?s = ((2, None), ?s2)"
  proof -
    have "{''user:1'', ''user:2''} \<inter> dom (store ?s) = {''user:1'', ''user:2''}" by auto
    then show ?thesis
      by (simp add: redis_delete_quiet scan_loop_Background fun_eq_iff)
  qed
  from delete_by_prefix_counts [OF d all m1 quiet r1]
  have a: "1 = card (dom (cache ?m) - dom (cache ?m1))" by blast
  from delete_by_prefix_counts [OF d all m2 quiet r2]
  have b: "2 = card {k \<in> dom (cache ?m). prefix ''user:'' k}" by blast
  from m1 r1 m2 r2 a b show ?thesis by simp
qed

subsection \<open>Callers that race for one key\<close>

lemmas call_eval =
  redisCacher_GetOrFetch_def fetch_and_store_def release_lock_def release_script_def
  lock_key_def lockTTL_def Milliseconds_def decode_def

lemmas wait_eval =
  waitForCache_def wait_loop.simps time_Sleep_def next_backoff_def maxBackoff_def
  Millisecond_def Second_def word_sless_alt

text \<open>A caller that does not get the lock waits; its world is not touched.\<close>

lemma redis_loser:
  assumes "client_Get k s = (Inl e1, s1)" and "errors_Is e1 RedisNil"
    and "client_SetNX (lock_key k) lockValue lockTTL s1 = (Inr False, s2)"
  shows "redisCacher_GetOrFetch marshal unmarshal ticks lockValue cx k ttl fetchFn s w =
     map_option (\<lambda>(r, s3). (r, s3, w)) (waitForCache unmarshal cx k (lock_key k) (30 * Second) s2)"
  using assms by (simp add: redisCacher_GetOrFetch_def)

lemma redis_loser_returns:
  assumes "client_Get k s = (Inl e1, s1)" and "errors_Is e1 RedisNil"
    and "client_SetNX (lock_key k) lockValue lockTTL s1 = (Inr False, s2)"
  shows "\<exists>r s'. redisCacher_GetOrFetch marshal unmarshal ticks lockValue cx k ttl fetchFn s w
           = Some (r, s', w)"
proof -
  from wait_loop_returns [of unmarshal k "lock_key k" "now s2 + sint (30 * Second)" cx 0 s2]
  obtain r s' where "waitForCache unmarshal cx k (lock_key k) (30 * Second) s2 = Some (r, s')"
    by (auto simp add: waitForCache_def)
  then show ?thesis
    by (simp add: redis_loser [OF assms])
qed

text \<open>
  The callers of the in-memory variant, under every schedule of their steps.
\<close>

lemma callers_move [simp]:
  "callers (move i p st) = (callers st)(i := p)" "table (move i p st) = table st"
  "calls (move i p st) = calls st" "ended (move i p st) = ended st"
  "fresh (move i p st) = fresh st" "outside (move i p st) = outside st"
  by (simp_all add: move_def)

lemma race_start_before_fetch: "before_fetch k c0 w0 (race_start c0 w0)"
  by (simp add: before_fetch_def race_start_def)

lemma before_fetch_step:
  assumes cold: "try_cache assertT c0 k = None" and fetch: "fetchFn cx w0 = (Inr x, w1)"
    and inv: "before_fetch k c0 w0 st"
  shows "before_fetch k c0 w0 (race_step box assertT cx k ttl fetchFn i st)
       \<or> while_storing k c0 w1 x (race_step box assertT cx k ttl fetchFn i st)"
proof -
  from inv have w: "outside st = w0" and t: "table st = c0" and e: "ended st = Map.empty"
    and places: "\<And>j. early (calls st k) (callers st j)"
    and one: "\<And>a b. leads (callers st a) \<Longrightarrow> leads (callers st b) \<Longrightarrow> a = b"
    by (simp_all add: before_fetch_def)
  show ?thesis
  proof (cases "callers st i")
    case Calling
    then have "before_fetch k c0 w0 (race_step box assertT cx k ttl fetchFn i st)"
      using cold w t e places one
      by (auto simp add: race_step_def before_fetch_def)
    then show ?thesis ..
  next
    case Missed
    show ?thesis
    proof (cases "calls st k")
      case None
      have nolead: "\<not> leads (callers st j)" for j
        using places [of j] None by (cases "callers st j") simp_all
      have still: "early (Some c) (callers st j)" for j c
        using places [of j] None by (cases "callers st j") simp_all
      have "before_fetch k c0 w0 (race_step box assertT cx k ttl fetchFn i st)"
        using Missed None w t e nolead still
        by (auto simp add: race_step_def before_fetch_def)
      then show ?thesis ..
    next
      case (Some c)
      with Missed have "before_fetch k c0 w0 (race_step box assertT cx k ttl fetchFn i st)"
        using w t e places one
        by (auto simp add: race_step_def before_fetch_def)
      then show ?thesis ..
    qed
  next
    case (Leading c)
    then have "before_fetch k c0 w0 (race_step box assertT cx k ttl fetchFn i st)"
      using cold w t e places [of i] places one [of i] one [of _ i] one
      by (auto simp add: race_step_def before_fetch_def)
    then show ?thesis ..
  next
    case (Fetching c)
    have reg: "calls st k = Some c"
      using places [of i] Fetching by simp
    have others: "beside c (callers st j)" if "j \<noteq> i" for j
      using places [of j] one [of i j] that Fetching reg
      by (cases "callers st j") simp_all
    have "while_storing k c0 w1 x (race_step box assertT cx k ttl fetchFn i st)"
      unfolding while_storing_def
      using Fetching fetch w t e reg others
      by (auto simp add: race_step_def intro!: exI [of _ i])
    then show ?thesis ..
  next
    case (Storing c y)
    with places [of i] show ?thesis by simp
  next
    case (Finishing c r)
    with places [of i] show ?thesis by simp
  next
    case (Waiting c)
    then have "race_step box assertT cx k ttl fetchFn i st = st"
      using e by (simp add: race_step_def)
    with inv show ?thesis by simp
  next
    case (Resuming c r)
    with places [of i] show ?thesis by simp
  next
    case (Returned res)
    with places [of i] show ?thesis by simp
  qed
qed


lemma while_storing_step:
  assumes cold: "try_cache assertT c0 k = None" and inv: "while_storing k c0 w1 x st"
  shows "while_storing k c0 w1 x (race_step box assertT cx k ttl fetchFn i st)
       \<or> after_store box k ttl c0 w1 x (race_step box assertT cx k ttl fetchFn i st)"
proof -
  from inv obtain l c where w: "outside st = w1" and t: "table st = c0"
    and e: "ended st = Map.empty"
    and l: "callers st l = Storing c x" and reg: "calls st k = Some c"
    and others: "\<And>j. j \<noteq> l \<Longrightarrow> beside c (callers st j)"
    by (auto simp add: while_storing_def)
  show ?thesis
  proof (cases "i = l")
    case True
    have "settled (box x) x (callers st j)" if "j \<noteq> l" for j
      using others [OF that] by (cases "callers st j") simp_all
    then have "after_store box k ttl c0 w1 x (race_step box assertT cx k ttl fetchFn i st)"
      using True l w t e by (auto simp add: race_step_def after_store_def)
    then show ?thesis ..
  next
    case False
    have keep: "race_step box assertT cx k ttl fetchFn i st = st
        \<or> (\<exists>p. race_step box assertT cx k ttl fetchFn i st = move i p st \<and> beside c p)"
      using others [OF False] reg e t cold
      by (cases "callers st i")
        (auto simp add: race_step_def split: option.splits)
    then show ?thesis
    proof
      assume "race_step box assertT cx k ttl fetchFn i st = st"
      with inv show ?thesis by simp
    next
      assume "\<exists>p. race_step box assertT cx k ttl fetchFn i st = move i p st \<and> beside c p"
      then obtain p where s: "race_step box assertT cx k ttl fetchFn i st = move i p st"
        and p: "beside c p" by blast
      have "while_storing k c0 w1 x (move i p st)"
        unfolding while_storing_def
        using w t e l reg others p False
        by (auto intro!: exI [of _ l])
      with s show ?thesis by simp
    qed
  qed
qed

lemma after_store_step:
  assumes same: "assertT (box x) = Some x"
    and inv: "after_store box k ttl c0 w1 x st"
  shows "after_store box k ttl c0 w1 x (race_step box assertT cx k ttl fetchFn i st)"
proof -
  from inv have w: "outside st = w1" and t: "table st = cache_Set c0 k (box x) ttl"
    and e: "\<And>c r. ended st c = Some r \<Longrightarrow> r = Inr (box x)"
    and places: "\<And>j. settled (box x) x (callers st j)"
    by (simp_all add: after_store_def)
  have hit: "try_cache assertT (table st) k = Some x"
    using same t by (simp add: try_cache_def cache_Get_def cache_Set_def)
  have "race_step box assertT cx k ttl fetchFn i st = st
      \<or> (\<exists>p st'. race_step box assertT cx k ttl fetchFn i st = move i p st'
            \<and> settled (box x) x p \<and> outside st' = outside st \<and> table st' = table st
            \<and> callers st' = callers st
            \<and> (\<forall>c r. ended st' c = Some r \<longrightarrow> r = Inr (box x)))"
  proof (cases "callers st i")
    case Calling
    then show ?thesis using hit e
      by (intro disjI2 exI [of _ "Returned (Inr x)"] exI [of _ st]) (auto simp add: race_step_def)
  next
    case Missed
    show ?thesis
    proof (cases "calls st k")
      case None
      with Missed show ?thesis using e
        by (intro disjI2 exI [of _ "Leading (fresh st)"]
            exI [of _ "st\<lparr>calls := (calls st)(k \<mapsto> fresh st), fresh := Suc (fresh st)\<rparr>"])
          (auto simp add: race_step_def)
    next
      case (Some c)
      with Missed show ?thesis using e
        by (intro disjI2 exI [of _ "Waiting c"] exI [of _ st]) (auto simp add: race_step_def)
    qed
  next
    case (Leading c)
    then show ?thesis using hit e
      by (intro disjI2 exI [of _ "Finishing c (Inr (box x))"] exI [of _ st])
        (auto simp add: race_step_def)
  next
    case (Fetching c)
    with places [of i] show ?thesis by simp
  next
    case (Storing c y)
    with places [of i] show ?thesis by simp
  next
    case (Finishing c r)
    with places [of i] have r: "r = Inr (box x)" by simp
    with Finishing show ?thesis using e
      by (intro disjI2 exI [of _ "Resuming c r"]
          exI [of _ "st\<lparr>ended := (ended st)(c \<mapsto> r),
                     calls := (if calls st k = Some c then (calls st)(k := None) else calls st)\<rparr>"])
        (auto simp add: race_step_def)
  next
    case (Waiting c)
    show ?thesis
    proof (cases "ended st c")
      case None
      with Waiting show ?thesis by (simp add: race_step_def)
    next
      case (Some r)
      with Waiting e [OF Some] show ?thesis using e
        by (intro disjI2 exI [of _ "Resuming c r"] exI [of _ st]) (auto simp add: race_step_def)
    qed
  next
    case (Resuming c r)
    with places [of i] have r: "r = Inr (box x)" by simp
    with Resuming same show ?thesis using e
      by (intro disjI2 exI [of _ "Returned (Inr x)"] exI [of _ st]) (auto simp add: race_step_def)
  next
    case (Returned res)
    then show ?thesis by (simp add: race_step_def)
  qed
  then show ?thesis
  proof
    assume "race_step box assertT cx k ttl fetchFn i st = st"
    with inv show ?thesis by simp
  next
    assume "\<exists>p st'. race_step box assertT cx k ttl fetchFn i st = move i p st'
            \<and> settled (box x) x p \<and> outside st' = outside st \<and> table st' = table st
            \<and> callers st' = callers st
            \<and> (\<forall>c r. ended st' c = Some r \<longrightarrow> r = Inr (box x))"
    then obtain p st' where s: "race_step box assertT cx k ttl fetchFn i st = move i p st'"
      and p: "settled (box x) x p" and o: "outside st' = outside st" and tt: "table st' = table st"
      and cc: "callers st' = callers st"
      and ee: "\<And>c r. ended st' c = Some r \<Longrightarrow> r = Inr (box x)"
      by blast
    have "after_store box k ttl c0 w1 x (move i p st')"
      unfolding after_store_def
      using p o tt cc w t places ee by auto
    with s show ?thesis by simp
  qed
qed

text \<open>Every state of the race is in one of the three stages.\<close>

lemma race_stages:
  assumes cold: "try_cache assertT c0 k = None" and fetch: "fetchFn cx w0 = (Inr x, w1)"
    and same: "assertT (box x) = Some x"
    and inv: "before_fetch k c0 w0 st \<or> while_storing k c0 w1 x st
        \<or> after_store box k ttl c0 w1 x st"
  shows "before_fetch k c0 w0 (race_run box assertT cx k ttl fetchFn sched st)
       \<or> while_storing k c0 w1 x (race_run box assertT cx k ttl fetchFn sched st)
       \<or> after_store box k ttl c0 w1 x (race_run box assertT cx k ttl fetchFn sched st)"
  using inv
proof (induction sched arbitrary: st)
  case Nil
  then show ?case by simp
next
  case (Cons i sched)
  have "before_fetch k c0 w0 (race_step box assertT cx k ttl fetchFn i st)
      \<or> while_storing k c0 w1 x (race_step box assertT cx k ttl fetchFn i st)
      \<or> after_store box k ttl c0 w1 x (race_step box assertT cx k ttl fetchFn i st)"
    using Cons.prems
      before_fetch_step [where assertT = assertT and fetchFn = fetchFn and cx = cx
        and ?w0.0 = w0 and ?c0.0 = c0 and k = k and x = x and ?w1.0 = w1 and st = st
        and box = box and ttl = ttl and i = i, OF cold fetch]
      while_storing_step [where assertT = assertT and fetchFn = fetchFn and cx = cx
        and ?c0.0 = c0 and k = k and x = x and ?w1.0 = w1 and st = st
        and box = box and ttl = ttl and i = i, OF cold]
      after_store_step [where assertT = assertT and fetchFn = fetchFn and cx = cx
        and ?c0.0 = c0 and k = k and x = x and ?w1.0 = w1 and st = st
        and box = box and ttl = ttl and i = i, OF same]
    by blast
  then show ?case
    by (simp add: Cons.IH)
qed

text \<open>
  The fetch succeeds: whatever the schedule, the fetch function has run at most once,
  and a caller that has returned has the fetched value, with the fetch function run
  once and the value in the table.
\<close>

lemma race_fetch_succeeds:
  assumes cold: "try_cache assertT c0 k = None" and fetch: "fetchFn cx w0 = (Inr x, w1)"
    and same: "assertT (box x) = Some x"
  shows "(outside (race_run box assertT cx k ttl fetchFn sched (race_start c0 w0)) = w0
        \<or> outside (race_run box assertT cx k ttl fetchFn sched (race_start c0 w0)) = w1)
     \<and> (callers (race_run box assertT cx k ttl fetchFn sched (race_start c0 w0)) i = Returned res
        \<longrightarrow> res = Inr x
          \<and> outside (race_run box assertT cx k ttl fetchFn sched (race_start c0 w0)) = w1
          \<and> cache_Get (table (race_run box assertT cx k ttl fetchFn sched (race_start c0 w0))) k
              = Some (box x))"
proof -
  let ?st = "race_run box assertT cx k ttl fetchFn sched (race_start c0 w0)"
  have "before_fetch k c0 w0 ?st \<or> while_storing k c0 w1 x ?st
      \<or> after_store box k ttl c0 w1 x ?st"
    by (rule race_stages [where assertT = assertT and fetchFn = fetchFn and cx = cx
          and ?w0.0 = w0 and ?c0.0 = c0 and k = k and x = x and ?w1.0 = w1 and box = box,
          OF cold fetch same])
      (simp add: race_start_before_fetch)
  then consider (a) "before_fetch k c0 w0 ?st" | (b) "while_storing k c0 w1 x ?st"
    | (c) "after_store box k ttl c0 w1 x ?st" by blast
  then show ?thesis
  proof cases
    case a
    then have "outside ?st = w0" and "early (calls ?st k) (callers ?st i)"
      by (simp_all add: before_fetch_def)
    then show ?thesis by (cases "callers ?st i") simp_all
  next
    case b
    then obtain l c where o: "outside ?st = w1" and l: "callers ?st l = Storing c x"
      and others: "\<And>j. j \<noteq> l \<Longrightarrow> beside c (callers ?st j)"
      by (auto simp add: while_storing_def)
    have "callers ?st i \<noteq> Returned res"
      using l others [of i] by (cases "i = l") auto
    with o show ?thesis by simp
  next
    case c
    then have "outside ?st = w1" and "table ?st = cache_Set c0 k (box x) ttl"
      and "settled (box x) x (callers ?st i)"
      by (simp_all add: after_store_def)
    then show ?thesis
      by (cases "callers ?st i") (simp_all add: cache_Get_def cache_Set_def)
  qed
qed

lemma fetch_failing_step:
  assumes cold: "try_cache assertT c0 k = None"
    and fails: "\<And>w. fst (fetchFn cx w) = Inl err"
    and inv: "fetch_failing c0 err st"
  shows "fetch_failing c0 err (race_step box assertT cx k ttl fetchFn i st)"
proof -
  from inv have t: "table st = c0"
    and e: "\<And>c r. ended st c = Some r \<Longrightarrow> r = Inl err"
    and places: "\<And>j. failed err (callers st j)"
    by (simp_all add: fetch_failing_def)
  have f: "\<exists>w'. fetchFn cx (outside st) = (Inl err, w')"
    using fails [of "outside st"] by (cases "fetchFn cx (outside st)") simp
  have "race_step box assertT cx k ttl fetchFn i st = st
      \<or> (\<exists>p st'. race_step box assertT cx k ttl fetchFn i st = move i p st'
            \<and> failed err p \<and> table st' = table st \<and> callers st' = callers st
            \<and> (\<forall>c r. ended st' c = Some r \<longrightarrow> r = Inl err))"
  proof (cases "callers st i")
    case Calling
    then show ?thesis using cold t e
      by (intro disjI2 exI [of _ Missed] exI [of _ st]) (auto simp add: race_step_def)
  next
    case Missed
    show ?thesis
    proof (cases "calls st k")
      case None
      with Missed show ?thesis using e
        by (intro disjI2 exI [of _ "Leading (fresh st)"]
            exI [of _ "st\<lparr>calls := (calls st)(k \<mapsto> fresh st), fresh := Suc (fresh st)\<rparr>"])
          (auto simp add: race_step_def)
    next
      case (Some c)
      with Missed show ?thesis using e
        by (intro disjI2 exI [of _ "Waiting c"] exI [of _ st]) (auto simp add: race_step_def)
    qed
  next
    case (Leading c)
    then show ?thesis using cold t e
      by (intro disjI2 exI [of _ "Fetching c"] exI [of _ st]) (auto simp add: race_step_def)
  next
    case (Fetching c)
    from f obtain w' where "fetchFn cx (outside st) = (Inl err, w')" ..
    with Fetching show ?thesis using e
      by (intro disjI2 exI [of _ "Finishing c (Inl err)"] exI [of _ "st\<lparr>outside := w'\<rparr>"])
        (auto simp add: race_step_def)
  next
    case (Storing c y)
    with places [of i] show ?thesis by simp
  next
    case (Finishing c r)
    with places [of i] have r: "r = Inl err" by simp
    with Finishing show ?thesis using e
      by (intro disjI2 exI [of _ "Resuming c r"]
          exI [of _ "st\<lparr>ended := (ended st)(c \<mapsto> r),
                     calls := (if calls st k = Some c then (calls st)(k := None) else calls st)\<rparr>"])
        (auto simp add: race_step_def)
  next
    case (Waiting c)
    show ?thesis
    proof (cases "ended st c")
      case None
      with Waiting show ?thesis by (simp add: race_step_def)
    next
      case (Some r)
      with Waiting e [OF Some] show ?thesis using e
        by (intro disjI2 exI [of _ "Resuming c r"] exI [of _ st]) (auto simp add: race_step_def)
    qed
  next
    case (Resuming c r)
    with places [of i] have r: "r = Inl err" by simp
    with Resuming show ?thesis using e
      by (intro disjI2 exI [of _ "Returned (Inl err)"] exI [of _ st]) (auto simp add: race_step_def)
  next
    case (Returned res)
    then show ?thesis by (simp add: race_step_def)
  qed
  then show ?thesis
  proof
    assume "race_step box assertT cx k ttl fetchFn i st = st"
    with inv show ?thesis by simp
  next
    assume "\<exists>p st'. race_step box assertT cx k ttl fetchFn i st = move i p st'
            \<and> failed err p \<and> table st' = table st \<and> callers st' = callers st
            \<and> (\<forall>c r. ended st' c = Some r \<longrightarrow> r = Inl err)"
    then obtain p st' where s: "race_step box assertT cx k ttl fetchFn i st = move i p st'"
      and p: "failed err p" and tt: "table st' = table st"
      and cc: "callers st' = callers st"
      and ee: "\<And>c r. ended st' c = Some r \<Longrightarrow> r = Inl err"
      by blast
    have "fetch_failing c0 err (move i p st')"
      unfolding fetch_failing_def
      using p tt cc t places ee by auto
    with s show ?thesis by simp
  qed
qed

text \<open>
  The fetch function fails with \<open>err\<close> whenever it runs: whatever the schedule, the
  table is as it was and a caller that has returned has \<open>err\<close>.
\<close>

lemma race_fetch_fails:
  assumes cold: "try_cache assertT c0 k = None"
    and fails: "\<And>w. fst (fetchFn cx w) = Inl err"
  shows "table (race_run box assertT cx k ttl fetchFn sched (race_start c0 w0)) = c0
     \<and> (callers (race_run box assertT cx k ttl fetchFn sched (race_start c0 w0)) i = Returned res
        \<longrightarrow> res = Inl err)"
proof -
  have run: "fetch_failing c0 err st \<Longrightarrow>
      fetch_failing c0 err (race_run box assertT cx k ttl fetchFn sched st)" for st
  proof (induction sched arbitrary: st)
    case Nil
    then show ?case by simp
  next
    case (Cons j sched)
    have "fetch_failing c0 err (race_step box assertT cx k ttl fetchFn j st)"
      using cold fails Cons.prems by (rule fetch_failing_step)
    then show ?case by (simp add: Cons.IH)
  qed
  let ?st = "race_run box assertT cx k ttl fetchFn sched (race_start c0 w0)"
  have "fetch_failing c0 err (race_start c0 w0)"
    by (simp add: fetch_failing_def race_start_def)
  then have "fetch_failing c0 err ?st" by (rule run)
  then have "table ?st = c0" and "failed err (callers ?st i)"
    by (simp_all add: fetch_failing_def)
  then show ?thesis by (cases "callers ?st i") simp_all
qed


lemma one_flight_step:
  assumes inv: "one_flight k st"
  shows "one_flight k (race_step box assertT cx k ttl fetchFn i st)"
proof -
  from inv have run: "\<And>j c. flight_of (callers st j) = Some c \<Longrightarrow>
        calls st k = Some c \<and> ended st c = None"
    and one: "\<And>a b. flight_of (callers st a) \<noteq> None \<Longrightarrow>
        flight_of (callers st b) \<noteq> None \<Longrightarrow> a = b"
    and reg: "\<And>c. calls st k = Some c \<Longrightarrow> c < fresh st"
    and old: "\<And>c r. ended st c = Some r \<Longrightarrow> c < fresh st"
    and res: "\<And>j c r. callers st j = Resuming c r \<Longrightarrow> ended st c = Some r"
    by (simp_all add: one_flight_def)
  have same_flight: "one_flight k (move i p st')"
    if "flight_of p = flight_of (callers st i)" "calls st' = calls st" "ended st' = ended st"
      "fresh st' = fresh st" "callers st' = callers st"
      "\<And>c r. p = Resuming c r \<Longrightarrow> ended st c = Some r" for p st'
  proof -
    have fl: "flight_of (callers (move i p st') j) = flight_of (callers st j)" for j
      using that(1,5) by simp
    have idle_or: "flight_of (callers st a) = None \<or> flight_of (callers st b) = None \<or> a = b"
      for a b
      using one [of a b] by blast
    show ?thesis
      unfolding one_flight_def fl
    proof (intro conjI allI impI)
      fix j c
      assume "flight_of (callers st j) = Some c"
      then show "calls (move i p st') k = Some c" and "ended (move i p st') c = None"
        using run [of j c] that(2,3) by simp_all
    next
      fix a b
      assume "flight_of (callers st a) \<noteq> None \<and> flight_of (callers st b) \<noteq> None"
      then show "a = b" using idle_or [of a b] by auto
    next
      fix c
      assume "calls (move i p st') k = Some c"
      then show "c < fresh (move i p st')" using reg [of c] that(2,4) by simp
    next
      fix c r
      assume "ended (move i p st') c = Some r"
      then show "c < fresh (move i p st')" using old [of c r] that(3,4) by simp
    next
      fix j c r
      assume "callers (move i p st') j = Resuming c r"
      then show "ended (move i p st') c = Some r"
        using res [of j c r] that(3,5,6) by (cases "j = i") simp_all
    qed
  qed
  show ?thesis
  proof (cases "callers st i")
    case Calling
    then show ?thesis
      by (auto simp add: race_step_def intro!: same_flight split: option.splits)
  next
    case Missed
    show ?thesis
    proof (cases "calls st k")
      case None
      have idle: "flight_of (callers st j) = None" for j
        using run [of j] None by (cases "flight_of (callers st j)") auto
      have new: "ended st (fresh st) = None"
        using old [of "fresh st"] by (cases "ended st (fresh st)") auto
      have "one_flight k (move i (Leading (fresh st))
          (st\<lparr>calls := (calls st)(k \<mapsto> fresh st), fresh := Suc (fresh st)\<rparr>))"
        unfolding one_flight_def
        using idle new old res
        by (auto simp add: less_Suc_eq split: if_splits)
      with Missed None show ?thesis by (simp add: race_step_def)
    next
      case (Some c)
      with Missed show ?thesis
        by (auto simp add: race_step_def intro!: same_flight)
    qed
  next
    case (Leading c)
    then show ?thesis
      by (auto simp add: race_step_def intro!: same_flight split: option.splits)
  next
    case (Fetching c)
    then show ?thesis
      by (auto simp add: race_step_def intro!: same_flight split: prod.splits sum.splits)
  next
    case (Storing c y)
    then show ?thesis
      by (auto simp add: race_step_def intro!: same_flight)
  next
    case (Finishing c r)
    have mine: "calls st k = Some c" "ended st c = None"
      using run [of i c] Finishing by simp_all
    have idle: "flight_of (callers st j) = None" if "j \<noteq> i" for j
      using one [of j i] that Finishing by (cases "flight_of (callers st j)") auto
    have "one_flight k (move i (Resuming c r)
        (st\<lparr>ended := (ended st)(c \<mapsto> r), calls := (calls st)(k := None)\<rparr>))"
      unfolding one_flight_def
      using mine idle reg old res
      by (auto split: if_splits)
    with Finishing mine show ?thesis by (simp add: race_step_def)
  next
    case (Waiting c)
    then show ?thesis using inv
      by (auto simp add: race_step_def intro!: same_flight split: option.splits)
  next
    case (Resuming c r)
    then show ?thesis
      by (auto simp add: race_step_def intro!: same_flight split: sum.splits option.splits)
  next
    case (Returned res)
    with inv show ?thesis by (simp add: race_step_def)
  qed
qed

text \<open>
  Whatever the fetch function does and whatever the schedule: no two callers are in
  \<^verbatim>\<open>group.Do\<close>'s function at the same time, and two callers that come out of
  \<^verbatim>\<open>group.Do\<close> for the same call hold the same result.
\<close>

lemma race_one_flight:
  "one_flight k (race_run box assertT cx k ttl fetchFn sched (race_start c0 w0))"
proof -
  have run: "one_flight k st \<Longrightarrow>
      one_flight k (race_run box assertT cx k ttl fetchFn sched st)" for st
  proof (induction sched arbitrary: st)
    case Nil
    then show ?case by simp
  next
    case (Cons j sched)
    have "one_flight k (race_step box assertT cx k ttl fetchFn j st)"
      using Cons.prems by (rule one_flight_step)
    then show ?case by (simp add: Cons.IH)
  qed
  have "one_flight k (race_start c0 w0)"
    by (simp add: one_flight_def race_start_def)
  then show ?thesis by (rule run)
qed

lemma race_coalesces:
  "(flight_of (callers (race_run box assertT cx k ttl fetchFn sched (race_start c0 w0)) i) \<noteq> None
    \<and> flight_of (callers (race_run box assertT cx k ttl fetchFn sched (race_start c0 w0)) j) \<noteq> None
    \<longrightarrow> i = j)
   \<and> (callers (race_run box assertT cx k ttl fetchFn sched (race_start c0 w0)) i = Resuming c r
      \<and> callers (race_run box assertT cx k ttl fetchFn sched (race_start c0 w0)) j = Resuming c r'
      \<longrightarrow> r = r')"
  using race_one_flight [of k box assertT cx ttl fetchFn sched c0 w0]
  unfolding one_flight_def by (metis option.inject)

text \<open>
  One caller alone does what \<open>MemoryCacher_GetOrFetch\<close> does on a group with nothing
  in flight.
\<close>

lemma race_alone:
  assumes "MemoryCacher_GetOrFetch box assertT cx k ttl fetchFn
      \<lparr>cache = c, flights = Map.empty\<rparr> w = (r, m', w')"
  shows "callers (race_run box assertT cx k ttl fetchFn [0, 0, 0, 0, 0, 0, 0] (race_start c w)) 0
        = Returned r
     \<and> table (race_run box assertT cx k ttl fetchFn [0, 0, 0, 0, 0, 0, 0] (race_start c w))
        = cache m'
     \<and> outside (race_run box assertT cx k ttl fetchFn [0, 0, 0, 0, 0, 0, 0] (race_start c w)) = w'
     \<and> calls (race_run box assertT cx k ttl fetchFn [0, 0, 0, 0, 0, 0, 0] (race_start c w)) k
        = None
     \<and> flights m' k = None"
proof (cases "try_cache assertT c k")
  case (Some v)
  have "race_step box assertT cx k ttl fetchFn 0 (race_start c w)
      = move 0 (Returned (Inr v)) (race_start c w)"
    using Some by (simp add: race_step_def race_start_def)
  moreover have "race_step box assertT cx k ttl fetchFn 0 (move 0 (Returned (Inr v)) st)
      = move 0 (Returned (Inr v)) st" for st :: "('a, 'b, 'c) race"
    by (simp add: race_step_def)
  moreover have "(r, m', w') = (Inr v, \<lparr>cache = c, flights = Map.empty\<rparr>, w)"
    using assms Some by (simp add: memory_hit)
  ultimately show ?thesis
    by (simp add: race_start_def)
next
  case None
  note idle = memory_idle_miss [where m = "\<lparr>cache = c, flights = Map.empty\<rparr>" and k = k
      and assertT = assertT and box = box and cx = cx and ttl = ttl and fetchFn = fetchFn and w = w]
  show ?thesis
  proof (cases "fetchFn cx w")
    case (Pair fr w1)
    show ?thesis
    proof (cases fr)
      case (Inl err)
      have "(r, m', w') = (Inl err, \<lparr>cache = c, flights = Map.empty\<rparr>, w1)"
        using assms None Pair Inl by (simp add: idle)
      moreover have "race_run box assertT cx k ttl fetchFn [0, 0, 0, 0, 0, 0, 0] (race_start c w)
        = \<lparr>table = c, calls = Map.empty, ended = [0 \<mapsto> Inl err], fresh = 1, outside = w1,
            callers = (\<lambda>i. Calling)(0 := Returned (Inl err))\<rparr>"
        using None Pair Inl by (simp add: race_step_def race_start_def move_def)
      ultimately show ?thesis by simp
    next
      case (Inr y)
      have "(r, m', w') =
          ((case assertT (box y) of Some t \<Rightarrow> Inr t | None \<Rightarrow> Inl (unexpected_type k)),
           \<lparr>cache = c(k \<mapsto> (box y, ttl)), flights = Map.empty\<rparr>, w1)"
        using assms None Pair Inr by (simp add: idle)
      moreover have "race_run box assertT cx k ttl fetchFn [0, 0, 0, 0, 0, 0, 0] (race_start c w)
        = \<lparr>table = c(k \<mapsto> (box y, ttl)), calls = Map.empty, ended = [0 \<mapsto> Inr (box y)],
            fresh = 1, outside = w1,
            callers = (\<lambda>i. Calling)(0 := Returned
              (case assertT (box y) of Some t \<Rightarrow> Inr t | None \<Rightarrow> Inl (unexpected_type k)))\<rparr>"
        using None Pair Inr
        by (cases "assertT (box y)")
          (simp_all add: race_step_def race_start_def move_def cache_Set_def)
      ultimately show ?thesis by simp
    qed
  qed
qed

lemma race_step_others:
  "j \<noteq> i \<Longrightarrow> callers (race_step box assertT cx k ttl fetchFn i st) j = callers st j"
  by (cases "callers st i")
    (auto simp add: race_step_def split: option.splits prod.splits sum.splits)

lemma race_step_flight:
  "flight_of (callers (race_step box assertT cx k ttl fetchFn i st) i) = None
   \<or> flight_of (callers (race_step box assertT cx k ttl fetchFn i st) i)
      = flight_of (callers st i)
   \<or> (callers st i = Missed \<and> calls st k = None
      \<and> callers (race_step box assertT cx k ttl fetchFn i st) i = Leading (fresh st))"
  by (cases "callers st i")
    (auto simp add: race_step_def split: option.splits prod.splits sum.splits)


lemma attended_step:
  assumes flight: "one_flight k st" and inv: "attended k st"
  shows "attended k (race_step box assertT cx k ttl fetchFn i st)"
proof -
  from inv have reg: "\<And>c. calls st k = Some c \<Longrightarrow> \<exists>l. flight_of (callers st l) = Some c"
    and wait: "\<And>j c. callers st j = Waiting c \<Longrightarrow>
        ended st c \<noteq> None \<or> (\<exists>l. flight_of (callers st l) = Some c)"
    by (simp_all add: attended_def)
  from flight have run: "\<And>j c. flight_of (callers st j) = Some c \<Longrightarrow> calls st k = Some c"
    by (simp add: one_flight_def)
  have same_flight: "attended k (move i p st')"
    if "flight_of p = flight_of (callers st i)" "calls st' = calls st" "ended st' = ended st"
      "callers st' = callers st"
      "\<And>c. p = Waiting c \<Longrightarrow> ended st c \<noteq> None \<or> (\<exists>l. flight_of (callers st l) = Some c)"
    for p st'
  proof -
    have fl: "flight_of (callers (move i p st') j) = flight_of (callers st j)" for j
      using that(1,4) by simp
    show ?thesis
      unfolding attended_def fl
    proof (intro conjI allI impI)
      fix c
      assume "calls (move i p st') k = Some c"
      then show "\<exists>l. flight_of (callers st l) = Some c"
        using reg [of c] that(2) by simp
    next
      fix j c
      assume "callers (move i p st') j = Waiting c"
      then show "ended (move i p st') c \<noteq> None \<or> (\<exists>l. flight_of (callers st l) = Some c)"
        using wait [of j c] that(3,4,5) by (cases "j = i") simp_all
    qed
  qed
  show ?thesis
  proof (cases "callers st i")
    case Calling
    then show ?thesis
      by (auto simp add: race_step_def intro!: same_flight split: option.splits)
  next
    case Missed
    show ?thesis
    proof (cases "calls st k")
      case None
      have "attended k (move i (Leading (fresh st))
          (st\<lparr>calls := (calls st)(k \<mapsto> fresh st), fresh := Suc (fresh st)\<rparr>))"
        unfolding attended_def
      proof (intro conjI allI impI)
        fix c
        assume "calls (move i (Leading (fresh st))
            (st\<lparr>calls := (calls st)(k \<mapsto> fresh st), fresh := Suc (fresh st)\<rparr>)) k = Some c"
        then have "c = fresh st" by simp
        then have "flight_of (callers (move i (Leading (fresh st))
            (st\<lparr>calls := (calls st)(k \<mapsto> fresh st), fresh := Suc (fresh st)\<rparr>)) i) = Some c"
          by simp
        then show "\<exists>l. flight_of (callers (move i (Leading (fresh st))
            (st\<lparr>calls := (calls st)(k \<mapsto> fresh st), fresh := Suc (fresh st)\<rparr>)) l) = Some c" ..
      next
        fix j c
        assume w: "callers (move i (Leading (fresh st))
            (st\<lparr>calls := (calls st)(k \<mapsto> fresh st), fresh := Suc (fresh st)\<rparr>)) j = Waiting c"
        then have j: "j \<noteq> i" and "callers st j = Waiting c"
          by (auto split: if_splits)
        then have "ended st c \<noteq> None \<or> (\<exists>l. flight_of (callers st l) = Some c)"
          using wait [of j c] by simp
        moreover have "flight_of (callers st l) = Some c \<Longrightarrow> False" for l
          using run [of l c] None by simp
        ultimately have "ended st c \<noteq> None" by blast
        then show "ended (move i (Leading (fresh st))
              (st\<lparr>calls := (calls st)(k \<mapsto> fresh st), fresh := Suc (fresh st)\<rparr>)) c \<noteq> None
            \<or> (\<exists>l. flight_of (callers (move i (Leading (fresh st))
              (st\<lparr>calls := (calls st)(k \<mapsto> fresh st), fresh := Suc (fresh st)\<rparr>)) l) = Some c)"
          by simp
      qed
      with Missed None show ?thesis by (simp add: race_step_def)
    next
      case (Some c)
      have "attended k (move i (Waiting c) st)"
        using Missed reg [OF Some] by (intro same_flight) auto
      with Missed Some show ?thesis by (simp add: race_step_def)
    qed
  next
    case (Leading c)
    then show ?thesis
      by (auto simp add: race_step_def intro!: same_flight split: option.splits)
  next
    case (Fetching c)
    then show ?thesis
      by (auto simp add: race_step_def intro!: same_flight split: prod.splits sum.splits)
  next
    case (Storing c y)
    then show ?thesis
      by (auto simp add: race_step_def intro!: same_flight)
  next
    case (Finishing c r)
    have mine: "calls st k = Some c"
      using run [of i c] Finishing by simp
    have "attended k (move i (Resuming c r)
        (st\<lparr>ended := (ended st)(c \<mapsto> r), calls := (calls st)(k := None)\<rparr>))"
      unfolding attended_def
    proof (intro conjI allI impI)
      fix c'
      assume "calls (move i (Resuming c r)
          (st\<lparr>ended := (ended st)(c \<mapsto> r), calls := (calls st)(k := None)\<rparr>)) k = Some c'"
      then show "\<exists>l. flight_of (callers (move i (Resuming c r)
          (st\<lparr>ended := (ended st)(c \<mapsto> r), calls := (calls st)(k := None)\<rparr>)) l) = Some c'"
        by simp
    next
      fix j c'
      assume "callers (move i (Resuming c r)
          (st\<lparr>ended := (ended st)(c \<mapsto> r), calls := (calls st)(k := None)\<rparr>)) j = Waiting c'"
      then have j: "j \<noteq> i" and w: "callers st j = Waiting c'"
        by (auto split: if_splits)
      show "ended (move i (Resuming c r)
            (st\<lparr>ended := (ended st)(c \<mapsto> r), calls := (calls st)(k := None)\<rparr>)) c' \<noteq> None
          \<or> (\<exists>l. flight_of (callers (move i (Resuming c r)
            (st\<lparr>ended := (ended st)(c \<mapsto> r), calls := (calls st)(k := None)\<rparr>)) l) = Some c')"
      proof (cases "c' = c")
        case True
        then show ?thesis by simp
      next
        case False
        from wait [OF w] show ?thesis
        proof
          assume "ended st c' \<noteq> None"
          with False show ?thesis by simp
        next
          assume "\<exists>l. flight_of (callers st l) = Some c'"
          then obtain l where l: "flight_of (callers st l) = Some c'" ..
          with False Finishing have "l \<noteq> i" by auto
          with l have "flight_of (callers (move i (Resuming c r)
            (st\<lparr>ended := (ended st)(c \<mapsto> r), calls := (calls st)(k := None)\<rparr>)) l) = Some c'"
            by simp
          then show ?thesis by blast
        qed
      qed
    qed
    with Finishing mine show ?thesis by (simp add: race_step_def)
  next
    case (Waiting c)
    then show ?thesis using inv
      by (auto simp add: race_step_def intro!: same_flight split: option.splits)
  next
    case (Resuming c r)
    then show ?thesis
      by (auto simp add: race_step_def intro!: same_flight split: sum.splits option.splits)
  next
    case (Returned res)
    with inv show ?thesis by (simp add: race_step_def)
  qed
qed


lemma race_run_append:
  "race_run box assertT cx k ttl fetchFn (xs @ ys) st
   = race_run box assertT cx k ttl fetchFn ys (race_run box assertT cx k ttl fetchFn xs st)"
  by (induction xs arbitrary: st) simp_all

lemma race_run_others:
  "j \<notin> set sched \<Longrightarrow> callers (race_run box assertT cx k ttl fetchFn sched st) j = callers st j"
  by (induction sched arbitrary: st) (simp_all add: race_step_others)

lemma race_run_flights:
  "one_flight k st \<and> attended k st \<Longrightarrow>
   one_flight k (race_run box assertT cx k ttl fetchFn sched st)
   \<and> attended k (race_run box assertT cx k ttl fetchFn sched st)"
proof (induction sched arbitrary: st)
  case Nil
  then show ?case by simp
next
  case (Cons i sched)
  from Cons.prems have "one_flight k (race_step box assertT cx k ttl fetchFn i st)
      \<and> attended k (race_step box assertT cx k ttl fetchFn i st)"
    by (simp add: one_flight_step attended_step)
  then show ?case
    using Cons.IH by simp
qed

text \<open>
  A step of a caller that is the only one that can be running a call brings it nearer
  to its return: it does not wait for a call that nobody runs.
\<close>

lemma solo_step:
  assumes flight: "one_flight k st" and inv: "attended k st"
    and idle: "\<And>j. j \<noteq> i \<Longrightarrow> flight_of (callers st j) = None"
    and going: "steps_left (callers st i) \<noteq> 0"
  shows "steps_left (callers (race_step box assertT cx k ttl fetchFn i st) i)
       < steps_left (callers st i)"
proof -
  from inv have reg: "\<And>c. calls st k = Some c \<Longrightarrow> \<exists>l. flight_of (callers st l) = Some c"
    and wait: "\<And>j c. callers st j = Waiting c \<Longrightarrow>
        ended st c \<noteq> None \<or> (\<exists>l. flight_of (callers st l) = Some c)"
    by (simp_all add: attended_def)
  have alone: "flight_of (callers st i) = None \<Longrightarrow> flight_of (callers st l) = None" for l
    using idle [of l] by (cases "l = i") simp_all
  show ?thesis
  proof (cases "callers st i")
    case Calling
    then show ?thesis by (simp add: race_step_def split: option.splits)
  next
    case Missed
    have "calls st k = None"
    proof (cases "calls st k")
      case (Some c)
      from reg [OF Some] alone Missed show ?thesis by auto
    qed simp
    with Missed show ?thesis by (simp add: race_step_def)
  next
    case (Leading c)
    then show ?thesis by (simp add: race_step_def split: option.splits)
  next
    case (Fetching c)
    then show ?thesis by (simp add: race_step_def split: prod.splits sum.splits)
  next
    case (Storing c y)
    then show ?thesis by (simp add: race_step_def)
  next
    case (Finishing c r)
    then show ?thesis by (simp add: race_step_def)
  next
    case (Waiting c)
    from wait [OF Waiting] alone Waiting have "ended st c \<noteq> None" by auto
    with Waiting show ?thesis by (auto simp add: race_step_def)
  next
    case (Resuming c r)
    then show ?thesis by (simp add: race_step_def split: sum.splits option.splits)
  next
    case (Returned res)
    with going show ?thesis by simp
  qed
qed

lemma solo_returns:
  assumes "one_flight k st" and "attended k st"
    and "\<And>j. j \<noteq> i \<Longrightarrow> flight_of (callers st j) = None"
  shows "\<exists>n res. callers (race_run box assertT cx k ttl fetchFn (replicate n i) st) i
           = Returned res"
  using assms
proof (induction "steps_left (callers st i)" arbitrary: st rule: less_induct)
  case less
  show ?case
  proof (cases "steps_left (callers st i) = 0")
    case True
    then obtain res where "callers st i = Returned res"
      by (cases "callers st i") simp_all
    then have "callers (race_run box assertT cx k ttl fetchFn (replicate 0 i) st) i = Returned res"
      by simp
    then show ?thesis by blast
  next
    case False
    let ?st = "race_step box assertT cx k ttl fetchFn i st"
    have nearer: "steps_left (callers ?st i) < steps_left (callers st i)"
      using less.prems False by (rule solo_step)
    have flights: "one_flight k ?st" "attended k ?st"
      using less.prems(1,2) by (simp_all add: one_flight_step attended_step)
    have idle: "flight_of (callers ?st j) = None" if "j \<noteq> i" for j
      using less.prems(3) [OF that] that by (simp add: race_step_others)
    from less.hyps [OF nearer flights idle]
    obtain n res where
      "callers (race_run box assertT cx k ttl fetchFn (replicate n i) ?st) i = Returned res"
      by blast
    then have "callers (race_run box assertT cx k ttl fetchFn (replicate (Suc n) i) st) i
        = Returned res"
      by simp
    then show ?thesis by blast
  qed
qed

text \<open>
  Wherever a race has come to, every caller can run to its return: first the caller
  that is running a call, if there is one, then the caller itself.
\<close>

lemma race_can_return:
  assumes flight: "one_flight k st" and inv: "attended k st"
  shows "\<exists>ext res. callers (race_run box assertT cx k ttl fetchFn ext st) i = Returned res"
proof (cases "\<exists>l. flight_of (callers st l) \<noteq> None")
  case True
  then obtain l where l: "flight_of (callers st l) \<noteq> None" ..
  from flight have one: "\<And>a b. flight_of (callers st a) \<noteq> None \<Longrightarrow>
        flight_of (callers st b) \<noteq> None \<Longrightarrow> a = b"
    by (simp add: one_flight_def)
  have idle: "flight_of (callers st j) = None" if "j \<noteq> l" for j
    using one [of j l] l that by blast
  from solo_returns [where i = l and box = box and assertT = assertT and cx = cx and ttl = ttl
      and fetchFn = fetchFn, OF flight inv idle]
  obtain n res where
    ret: "callers (race_run box assertT cx k ttl fetchFn (replicate n l) st) l = Returned res"
    by blast
  let ?st = "race_run box assertT cx k ttl fetchFn (replicate n l) st"
  have flights: "one_flight k ?st" "attended k ?st"
    using race_run_flights [of k st box assertT cx ttl fetchFn "replicate n l"] flight inv
    by simp_all
  have quiet: "flight_of (callers ?st j) = None" for j
  proof (cases "j = l")
    case True
    with ret show ?thesis by simp
  next
    case False
    then have "callers ?st j = callers st j"
      by (intro race_run_others) auto
    with idle [OF False] show ?thesis by simp
  qed
  from solo_returns [where i = i and box = box and assertT = assertT and cx = cx and ttl = ttl
      and fetchFn = fetchFn, OF flights quiet]
  obtain n' res' where
    "callers (race_run box assertT cx k ttl fetchFn (replicate n' i) ?st) i = Returned res'"
    by blast
  then have "callers (race_run box assertT cx k ttl fetchFn (replicate n l @ replicate n' i) st) i
      = Returned res'"
    by (simp add: race_run_append)
  then show ?thesis by blast
next
  case False
  then have "flight_of (callers st j) = None" for j by simp
  from solo_returns [where i = i and box = box and assertT = assertT and cx = cx and ttl = ttl
      and fetchFn = fetchFn, OF flight inv this]
  show ?thesis by blast
qed

lemma race_progress:
  "\<exists>ext res. callers (race_run box assertT cx k ttl fetchFn (sched @ ext) (race_start c0 w0)) i
     = Returned res"
proof -
  have "one_flight k (race_start c0 w0 :: ('a, 'b, 'c) race)
      \<and> attended k (race_start c0 w0 :: ('a, 'b, 'c) race)"
    by (simp add: one_flight_def attended_def race_start_def)
  then have "one_flight k (race_run box assertT cx k ttl fetchFn sched (race_start c0 w0))
      \<and> attended k (race_run box assertT cx k ttl fetchFn sched (race_start c0 w0))"
    by (rule race_run_flights)
  then show ?thesis
    unfolding race_run_append by (simp add: race_can_return)
qed

text \<open>The callers of the Redis variant that wait for the holder of the lock.\<close>

text \<open>After \<open>n\<close> rounds the loop is where it was, with the later context, backoff and store.\<close>

lemma wait_rounds_loop:
  "wait_rounds k lockKey deadline n cx backoff s = Some (cxn, bn, sn) \<Longrightarrow>
   wait_loop unmarshal k lockKey deadline cx backoff s
     = wait_loop unmarshal k lockKey deadline cxn bn sn"
proof (induction n arbitrary: cx backoff s)
  case 0
  then show ?case by simp
next
  case (Suc n)
  from Suc.prems show ?case
    by (subst wait_loop.simps)
      (auto split: prod.splits option.splits sum.splits if_splits dest: Suc.IH)
qed

lemma wait_rounds_backoff:
  "wait_rounds k lockKey deadline n cx (backoff_at j) s = Some (cxn, bn, sn) \<Longrightarrow>
   bn = backoff_at (j + n) \<and> sleeps sn = sleeps s @ map backoff_at [j..<j + n]"
proof (induction n arbitrary: cx j s)
  case 0
  then show ?case by simp
next
  case (Suc n)
  from Suc.prems obtain cx' e1 s1 ex s2 where
      g: "client_Get k s = (Inl e1, s1)" and x: "client_Exists lockKey s1 = (Inr ex, s2)"
      and r: "wait_rounds k lockKey deadline n cx' (next_backoff (backoff_at j))
                (time_Sleep (backoff_at j) s2) = Some (cxn, bn, sn)"
    by (auto split: prod.splits option.splits sum.splits if_splits)
  have nb: "next_backoff (backoff_at j) = backoff_at (Suc j)"
    by (simp add: backoff_at.simps)
  have sl: "sleeps (time_Sleep (backoff_at j) s2) = sleeps s @ [backoff_at j]"
    using g x by (simp add: time_Sleep_backoff client_Get_frame client_Exists_frame)
  from r have "bn = backoff_at (Suc j + n)
      \<and> sleeps sn = sleeps (time_Sleep (backoff_at j) s2) @ map backoff_at [Suc j..<Suc j + n]"
    unfolding nb by (rule Suc.IH)
  then show ?case
    unfolding sl upt_shift [of j n] by simp
qed


text \<open>
  A caller that does not get the lock and whose first \<open>n\<close> polls go round the loop is
  at its next poll, its world untouched.
\<close>

lemma redis_waiter_at_poll:
  assumes "client_Get k s = (Inl e1, s1)" and "errors_Is e1 RedisNil"
    and "client_SetNX (lock_key k) lockValue lockTTL s1 = (Inr False, s2)"
    and "wait_rounds k (lock_key k) (now s2 + sint (30 * Second)) n cx (10 * Millisecond) s2
          = Some (cxn, bn, sn)"
  shows "redisCacher_GetOrFetch marshal unmarshal ticks lockValue cx k ttl fetchFn s w =
     map_option (\<lambda>(r, s3). (r, s3, w))
       (wait_loop unmarshal k (lock_key k) (now s2 + sint (30 * Second)) cxn bn sn)"
  using assms(1-3) wait_rounds_loop [OF assms(4), of unmarshal]
  by (simp add: redisCacher_GetOrFetch_def waitForCache_def)

lemma wait_loop_value:
  assumes "ctx_Done cx = (None, cx')" and "\<not> deadline < now s"
    and "client_Get k s = (Inr v, s1)"
  shows "wait_loop unmarshal k lockKey deadline cx backoff s = Some (decode unmarshal v, s1)"
  by (subst wait_loop.simps) (simp add: assms)

lemma wait_loop_lock_gone:
  assumes "ctx_Done cx = (None, cx')" and "\<not> deadline < now s"
    and "client_Get k s = (Inl e2, s1)" and "errors_Is e2 RedisNil"
    and "client_Exists lockKey s1 = (Inr 0, s2)"
  shows "wait_loop unmarshal k lockKey deadline cx backoff s =
     (case client_Get k s2 of
        (Inr v, s3) \<Rightarrow> Some (decode unmarshal v, s3)
      | (Inl err, s3) \<Rightarrow> Some (Inl (New ''fetch operation failed or cache not populated''), s3))"
  by (subst wait_loop.simps) (simp add: assms)


lemma redis_waiter_value:
  assumes "client_Get k s = (Inl e1, s1)" and "errors_Is e1 RedisNil"
    and "client_SetNX (lock_key k) lockValue lockTTL s1 = (Inr False, s2)"
    and "wait_rounds k (lock_key k) (now s2 + sint (30 * Second)) n cx (10 * Millisecond) s2
          = Some (cxn, bn, sn)"
    and "ctx_Done cxn = (None, cx')" and "\<not> now s2 + sint (30 * Second) < now sn"
    and "client_Get k sn = (Inr v, s3)"
  shows "redisCacher_GetOrFetch marshal unmarshal ticks lockValue cx k ttl fetchFn s w
     = Some (decode unmarshal v, s3, w)"
  unfolding redis_waiter_at_poll [OF assms(1-4)] wait_loop_value [OF assms(5-7)]
  by simp

lemma redis_waiter_lock_gone:
  assumes "client_Get k s = (Inl e1, s1)" and "errors_Is e1 RedisNil"
    and "client_SetNX (lock_key k) lockValue lockTTL s1 = (Inr False, s2)"
    and "wait_rounds k (lock_key k) (now s2 + sint (30 * Second)) n cx (10 * Millisecond) s2
          = Some (cxn, bn, sn)"
    and "ctx_Done cxn = (None, cx')" and "\<not> now s2 + sint (30 * Second) < now sn"
    and "client_Get k sn = (Inl e2, s3)" and "errors_Is e2 RedisNil"
    and "client_Exists (lock_key k) s3 = (Inr 0, s4)"
  shows "redisCacher_GetOrFetch marshal unmarshal ticks lockValue cx k ttl fetchFn s w =
     (case client_Get k s4 of
        (Inr v, s5) \<Rightarrow> Some (decode unmarshal v, s5, w)
      | (Inl err, s5) \<Rightarrow>
          Some (Inl (New ''fetch operation failed or cache not populated''), s5, w))"
  unfolding redis_waiter_at_poll [OF assms(1-4)] wait_loop_lock_gone [OF assms(5-9)]
  by (simp split: prod.splits sum.splits)

text \<open>
  C1, as stated, fails on both variants. Two callers A and B of \<^verbatim>\<open>GetOrFetch\<close> for the
  key \<open>''K''\<close>, nothing stored for it; the fetch function counts its calls in the world.

  In memory, the fetch fails. A (caller 0) looks into the table and misses. B
  (caller 1) then runs its whole call: it misses, starts a call of the group, fetches
  (the counter goes to 1) and returns the error; the call has ended. Only now A comes
  to \<^verbatim>\<open>group.Do\<close>: nothing is in flight, so A starts a call of its own and fetches
  again. The counter is 2. (When the fetch succeeds the second look at the table keeps
  A from fetching, lines 71-75.)

  On Redis, what B does while A is under way reaches A as events of the environment:
  the release is B's deferred script, the write is B's \<^verbatim>\<open>SET\<close>.

  The fetch fails. B, the holder of the lock, returns the fetch error wrapped. A finds
  the lock taken and waits; by its second poll B has released the lock, and A returns
  \<^verbatim>\<open>fetch operation failed or cache not populated\<close>: not the same error.

  The fetch succeeds. A reads the key and misses while B holds the lock; B writes the
  entry and releases the lock; then A's \<^verbatim>\<open>SetNX\<close> runs and succeeds, and A fetches
  again (there is no second look at the entry under the lock): the counter goes from
  1, where B's fetch left it, to 2.
\<close>

theorem single_flight_counterexample:
  "race_run Some (\<lambda>d. d) Background ''K'' Second
     (\<lambda>cx n. (Inl (New ''boom''), Suc n))
     [0, 1, 1, 1, 1, 1, 1, 0, 0, 0, 0, 0] (race_start Map.empty (0::nat))
   = \<lparr>table = Map.empty, calls = Map.empty,
      ended = [0 \<mapsto> Inl (New ''boom''), 1 \<mapsto> Inl (New ''boom'')], fresh = 2, outside = 2,
      callers = (\<lambda>i. Calling)
        (0 := Returned (Inl (New ''boom'') :: error + string),
         1 := Returned (Inl (New ''boom'')))\<rparr>
   \<and> redisCacher_GetOrFetch Inr Inr 0 ''B'' Background ''K'' Second
     (\<lambda>cx n. (Inl (New ''boom''), Suc n))
     \<lparr>store = Map.empty, env = [], now = 0, sleeps = []\<rparr> (0::nat)
   = Some (Inl (Wrap ''fetch function failed'' (New ''boom'')) :: error + string,
       \<lparr>store = Map.empty, env = [], now = 0, sleeps = []\<rparr>, 1)
   \<and> redisCacher_GetOrFetch Inr Inr 0 ''A'' Background ''K'' Second
     (\<lambda>cx n. (Inl (New ''boom''), Suc n))
     \<lparr>store = [''K:lock'' \<mapsto> (''B'', 30000)],
      env = [Quiet, Quiet, Quiet, Quiet,
             Interfere (\<lambda>st. snd (release_script ''K:lock'' ''B'' st))],
      now = 0, sleeps = []\<rparr> (1::nat)
   = Some (Inl (New ''fetch operation failed or cache not populated'') :: error + string,
       \<lparr>store = Map.empty, env = [], now = 10000000, sleeps = [10000000]\<rparr>, 1)
   \<and> Wrap ''fetch function failed'' (New ''boom'')
       \<noteq> New ''fetch operation failed or cache not populated''
   \<and> redisCacher_GetOrFetch Inr Inr 0 ''B'' Background ''K'' Second
     (\<lambda>cx n. (Inr ''v'', Suc n))
     \<lparr>store = Map.empty, env = [], now = 0, sleeps = []\<rparr> (0::nat)
   = Some (Inr ''v'', \<lparr>store = [''K'' \<mapsto> (''v'', 1000)], env = [], now = 0, sleeps = []\<rparr>, 1)
   \<and> redisCacher_GetOrFetch Inr Inr 0 ''A'' Background ''K'' Second
     (\<lambda>cx n. (Inr ''v'', Suc n))
     \<lparr>store = [''K:lock'' \<mapsto> (''B'', 30000)],
      env = [Quiet,
             Interfere (\<lambda>st. snd (release_script ''K:lock'' ''B''
                                (snd (SET ''K'' ''v'' (Milliseconds Second) st))))],
      now = 0, sleeps = []\<rparr> (1::nat)
   = Some (Inr ''v'', \<lparr>store = [''K'' \<mapsto> (''v'', 1000)], env = [], now = 0, sleeps = []\<rparr>, 2)"
proof -
  have memory: "race_run Some (\<lambda>d. d) Background ''K'' Second
     (\<lambda>cx n. (Inl (New ''boom''), Suc n))
     [0, 1, 1, 1, 1, 1, 1, 0, 0, 0, 0, 0] (race_start Map.empty (0::nat))
   = \<lparr>table = Map.empty, calls = Map.empty,
      ended = [0 \<mapsto> Inl (New ''boom''), 1 \<mapsto> Inl (New ''boom'')], fresh = 2, outside = 2,
      callers = (\<lambda>i. Calling)
        (0 := Returned (Inl (New ''boom'') :: error + string),
         1 := Returned (Inl (New ''boom'')))\<rparr>"
    by (simp add: race_step_def race_start_def move_def try_cache_def cache_Get_def
        numeral_2_eq_2 fun_eq_iff)
  have holder_fails: "redisCacher_GetOrFetch Inr Inr 0 ''B'' Background ''K'' Second
     (\<lambda>cx n. (Inl (New ''boom''), Suc n))
     \<lparr>store = Map.empty, env = [], now = 0, sleeps = []\<rparr> (0::nat)
   = Some (Inl (Wrap ''fetch function failed'' (New ''boom'')) :: error + string,
       \<lparr>store = Map.empty, env = [], now = 0, sleeps = []\<rparr>, 1)"
    by (subst redis_idle_miss) simp_all
  have waiter: "redisCacher_GetOrFetch Inr Inr 0 ''A'' Background ''K'' Second
     (\<lambda>cx n. (Inl (New ''boom''), Suc n))
     \<lparr>store = [''K:lock'' \<mapsto> (''B'', 30000)],
      env = [Quiet, Quiet, Quiet, Quiet,
             Interfere (\<lambda>st. snd (release_script ''K:lock'' ''B'' st))],
      now = 0, sleeps = []\<rparr> (1::nat)
   = Some (Inl (New ''fetch operation failed or cache not populated'') :: error + string,
       \<lparr>store = Map.empty, env = [], now = 10000000, sleeps = [10000000]\<rparr>, 1)"
    by (simp add: call_eval event_eval wait_eval fun_eq_iff)
  have holder_succeeds: "redisCacher_GetOrFetch Inr Inr 0 ''B'' Background ''K'' Second
     (\<lambda>cx n. (Inr ''v'', Suc n))
     \<lparr>store = Map.empty, env = [], now = 0, sleeps = []\<rparr> (0::nat)
   = Some (Inr ''v'', \<lparr>store = [''K'' \<mapsto> (''v'', 1000)], env = [], now = 0, sleeps = []\<rparr>, 1)"
    by (subst redis_idle_miss) (simp_all add: Milliseconds_def Second_def Millisecond_def)
  have late: "redisCacher_GetOrFetch Inr Inr 0 ''A'' Background ''K'' Second
     (\<lambda>cx n. (Inr ''v'', Suc n))
     \<lparr>store = [''K:lock'' \<mapsto> (''B'', 30000)],
      env = [Quiet,
             Interfere (\<lambda>st. snd (release_script ''K:lock'' ''B''
                                (snd (SET ''K'' ''v'' (Milliseconds Second) st))))],
      now = 0, sleeps = []\<rparr> (1::nat)
   = Some (Inr ''v'', \<lparr>store = [''K'' \<mapsto> (''v'', 1000)], env = [], now = 0, sleeps = []\<rparr>, 2)"
    by (simp add: call_eval event_eval Second_def Millisecond_def fun_eq_iff)
  from memory holder_fails waiter holder_succeeds late show ?thesis
    by simp
qed

text \<open>
  C1, amended. In-memory variant: any number of callers of \<^verbatim>\<open>GetOrFetch\<close> for one key
  that the table has no value for, in the state \<open>st\<close> that any schedule of their steps
  leads to.
  \<^item> The fetch succeeds with \<open>x\<close>, a value that the type assertion gives back: the
    fetch function has run at most once, and when a caller has returned, it has
    returned \<open>x\<close>, the fetch function has run once and \<open>x\<close> is in the table.
  \<^item> The fetch function fails with \<open>err\<close> whenever it runs: nothing is stored, and a
    caller that has returned has returned \<open>err\<close>. (It can have run more than once.)
  \<^item> Whatever the fetch function does: no two callers are inside a call of the group
    at the same time, and callers that come out of \<^verbatim>\<open>group.Do\<close> for the same call hold
    the same result; and every caller can run to its return from there, so none is
    left waiting for a call that nobody runs.
  \<^item> A caller that misses and finds a fetch in flight for the key does not run the
    fetch function; it returns the result of that fetch, its value or its error, and
    the table and the group are as before.

  Redis variant: a caller that misses and does not get the lock returns, and it has
  not run the fetch function. At whichever poll of \<^verbatim>\<open>waitForCache\<close> it is, after any
  number \<open>n\<close> of rounds of finding the entry absent and the lock held, with its context
  alive and the 30 seconds not over: when it reads the entry, it returns what it
  decodes from it; when it finds the entry absent and the lock key gone, it reads once
  more and returns what it decodes from that, or else the error
  \<^verbatim>\<open>fetch operation failed or cache not populated\<close> (the holder returns the fetch
  error wrapped). A caller that gets the lock on a cold store, in a quiet environment,
  runs the fetch function once, and when it fails nothing is written.
\<close>

theorem single_flight_by_design:
  "(let st = race_run box assertT cx k ttl fetchFn sched (race_start c0 w0) in
      (try_cache assertT c0 k = None \<and> fetchFn cx w0 = (Inr x, w1) \<and> assertT (box x) = Some x \<longrightarrow>
         (outside st = w0 \<or> outside st = w1)
         \<and> (\<forall>i res. callers st i = Returned res \<longrightarrow>
               res = Inr x \<and> outside st = w1 \<and> cache_Get (table st) k = Some (box x)))
      \<and> (try_cache assertT c0 k = None \<and> (\<forall>w. fst (fetchFn cx w) = Inl err) \<longrightarrow>
         table st = c0 \<and> (\<forall>i res. callers st i = Returned res \<longrightarrow> res = Inl err))
      \<and> (\<forall>i j. flight_of (callers st i) \<noteq> None \<and> flight_of (callers st j) \<noteq> None \<longrightarrow> i = j)
      \<and> (\<forall>i j c r r'. callers st i = Resuming c r \<and> callers st j = Resuming c r' \<longrightarrow> r = r'))
   \<and> (\<forall>i. \<exists>ext res.
        callers (race_run box assertT cx k ttl fetchFn (sched @ ext) (race_start c0 w0)) i
          = Returned res)
   \<and> (try_cache assertT (cache m) k = None \<longrightarrow> (\<forall>r. flights m k = Some r \<longrightarrow>
      MemoryCacher_GetOrFetch box assertT cx k ttl fetchFn m w =
        ((case r of
            Inl err \<Rightarrow> Inl err
          | Inr v \<Rightarrow> (case assertT v of Some t \<Rightarrow> Inr t | None \<Rightarrow> Inl (unexpected_type k))),
         m, w)))
   \<and> (client_Get k s = (Inl e1, s1) \<and> errors_Is e1 RedisNil
       \<and> client_SetNX (lock_key k) lockValue lockTTL s1 = (Inr False, s2) \<longrightarrow>
      (\<exists>r s'. redisCacher_GetOrFetch marshal unmarshal ticks lockValue cx k ttl fetchFn' s w'
          = Some (r, s', w'))
      \<and> (\<forall>n cxn bn sn cx'.
            wait_rounds k (lock_key k) (now s2 + sint (30 * Second)) n cx (10 * Millisecond) s2
              = Some (cxn, bn, sn)
            \<and> ctx_Done cxn = (None, cx') \<and> \<not> now s2 + sint (30 * Second) < now sn \<longrightarrow>
            (\<forall>v s3. client_Get k sn = (Inr v, s3) \<longrightarrow>
               redisCacher_GetOrFetch marshal unmarshal ticks lockValue cx k ttl fetchFn' s w'
                 = Some (decode unmarshal v, s3, w'))
            \<and> (\<forall>e2 s3 s4. client_Get k sn = (Inl e2, s3) \<and> errors_Is e2 RedisNil
                  \<and> client_Exists (lock_key k) s3 = (Inr 0, s4) \<longrightarrow>
                (\<forall>v s5. client_Get k s4 = (Inr v, s5) \<longrightarrow>
                   redisCacher_GetOrFetch marshal unmarshal ticks lockValue cx k ttl fetchFn' s w'
                     = Some (decode unmarshal v, s5, w'))
                \<and> (\<forall>e3 s5. client_Get k s4 = (Inl e3, s5) \<longrightarrow>
                   redisCacher_GetOrFetch marshal unmarshal ticks lockValue cx k ttl fetchFn' s w'
                     = Some (Inl (New ''fetch operation failed or cache not populated''),
                         s5, w')))))
   \<and> (env c = [] \<and> store c k = None \<and> store c (lock_key k) = None \<longrightarrow>
      (\<exists>r c'. redisCacher_GetOrFetch marshal unmarshal ticks lockValue cx k ttl fetchFn' c w'
          = Some (r, c', snd (fetchFn' cx w')))
      \<and> (\<forall>err. fst (fetchFn' cx w') = Inl err \<longrightarrow>
            redisCacher_GetOrFetch marshal unmarshal ticks lockValue cx k ttl fetchFn' c w'
              = Some (Inl (Wrap ''fetch function failed'' err), c, snd (fetchFn' cx w'))))"
proof -
  let ?st = "race_run box assertT cx k ttl fetchFn sched (race_start c0 w0)"
  let ?call = "redisCacher_GetOrFetch marshal unmarshal ticks lockValue cx k ttl fetchFn'"
  have succeeds: "(outside ?st = w0 \<or> outside ?st = w1)
      \<and> (\<forall>i res. callers ?st i = Returned res \<longrightarrow>
            res = Inr x \<and> outside ?st = w1 \<and> cache_Get (table ?st) k = Some (box x))"
    if "try_cache assertT c0 k = None \<and> fetchFn cx w0 = (Inr x, w1) \<and> assertT (box x) = Some x"
  proof -
    from that have cold: "try_cache assertT c0 k = None" and f: "fetchFn cx w0 = (Inr x, w1)"
      and same: "assertT (box x) = Some x" by simp_all
    note run = race_fetch_succeeds [where assertT = assertT and fetchFn = fetchFn and cx = cx
        and ?w0.0 = w0 and ?c0.0 = c0 and k = k and x = x and ?w1.0 = w1 and box = box
        and ttl = ttl and sched = sched, OF cold f same]
    from run show ?thesis by blast
  qed
  have fails: "table ?st = c0 \<and> (\<forall>i res. callers ?st i = Returned res \<longrightarrow> res = Inl err)"
    if "try_cache assertT c0 k = None \<and> (\<forall>w. fst (fetchFn cx w) = Inl err)"
  proof -
    from that have cold: "try_cache assertT c0 k = None"
      and f: "\<And>w. fst (fetchFn cx w) = Inl err" by simp_all
    note run = race_fetch_fails [where assertT = assertT and fetchFn = fetchFn and cx = cx
        and ?w0.0 = w0 and ?c0.0 = c0 and k = k and err = err and box = box
        and ttl = ttl and sched = sched, OF cold f]
    from run show ?thesis by blast
  qed
  have apart: "\<forall>i j. flight_of (callers ?st i) \<noteq> None \<and> flight_of (callers ?st j) \<noteq> None
      \<longrightarrow> i = j"
    using race_coalesces [of box assertT cx k ttl fetchFn sched c0 w0] by blast
  have shared: "\<forall>i j c r r'. callers ?st i = Resuming c r \<and> callers ?st j = Resuming c r'
      \<longrightarrow> r = r'"
    using race_coalesces [of box assertT cx k ttl fetchFn sched c0 w0] by blast
  have progress: "\<forall>i. \<exists>ext res.
      callers (race_run box assertT cx k ttl fetchFn (sched @ ext) (race_start c0 w0)) i
        = Returned res"
    by (simp add: race_progress)
  have attached: "\<forall>r. flights m k = Some r \<longrightarrow>
      MemoryCacher_GetOrFetch box assertT cx k ttl fetchFn m w =
        ((case r of
            Inl err \<Rightarrow> Inl err
          | Inr v \<Rightarrow> (case assertT v of Some t \<Rightarrow> Inr t | None \<Rightarrow> Inl (unexpected_type k))),
         m, w)"
    if "try_cache assertT (cache m) k = None"
    using that by (simp add: memory_attached)
  have waiter: "(\<exists>r s'. ?call s w' = Some (r, s', w'))
      \<and> (\<forall>n cxn bn sn cx'.
            wait_rounds k (lock_key k) (now s2 + sint (30 * Second)) n cx (10 * Millisecond) s2
              = Some (cxn, bn, sn)
            \<and> ctx_Done cxn = (None, cx') \<and> \<not> now s2 + sint (30 * Second) < now sn \<longrightarrow>
            (\<forall>v s3. client_Get k sn = (Inr v, s3) \<longrightarrow>
               ?call s w' = Some (decode unmarshal v, s3, w'))
            \<and> (\<forall>e2 s3 s4. client_Get k sn = (Inl e2, s3) \<and> errors_Is e2 RedisNil
                  \<and> client_Exists (lock_key k) s3 = (Inr 0, s4) \<longrightarrow>
                (\<forall>v s5. client_Get k s4 = (Inr v, s5) \<longrightarrow>
                   ?call s w' = Some (decode unmarshal v, s5, w'))
                \<and> (\<forall>e3 s5. client_Get k s4 = (Inl e3, s5) \<longrightarrow>
                   ?call s w' = Some (Inl (New ''fetch operation failed or cache not populated''),
                         s5, w'))))"
    if "client_Get k s = (Inl e1, s1) \<and> errors_Is e1 RedisNil
       \<and> client_SetNX (lock_key k) lockValue lockTTL s1 = (Inr False, s2)"
  proof (intro conjI allI impI)
    from that have a1: "client_Get k s = (Inl e1, s1)" and a2: "errors_Is e1 RedisNil"
      and a3: "client_SetNX (lock_key k) lockValue lockTTL s1 = (Inr False, s2)"
      by simp_all
    show "\<exists>r s'. ?call s w' = Some (r, s', w')"
      by (rule redis_loser_returns [OF a1 a2 a3])
    {
      fix n cxn bn sn cx'
      assume b: "wait_rounds k (lock_key k) (now s2 + sint (30 * Second)) n cx (10 * Millisecond) s2
              = Some (cxn, bn, sn)
            \<and> ctx_Done cxn = (None, cx') \<and> \<not> now s2 + sint (30 * Second) < now sn"
      then have b1: "wait_rounds k (lock_key k) (now s2 + sint (30 * Second)) n cx
            (10 * Millisecond) s2 = Some (cxn, bn, sn)"
        and b2: "ctx_Done cxn = (None, cx')"
        and b3: "\<not> now s2 + sint (30 * Second) < now sn"
        by simp_all
      {
        fix v s3
        assume "client_Get k sn = (Inr v, s3)"
        then show "?call s w' = Some (decode unmarshal v, s3, w')"
          by (rule redis_waiter_value [OF a1 a2 a3 b1 b2 b3])
      }
      fix e2 s3 s4
      assume "client_Get k sn = (Inl e2, s3) \<and> errors_Is e2 RedisNil
                  \<and> client_Exists (lock_key k) s3 = (Inr 0, s4)"
      then have c1: "client_Get k sn = (Inl e2, s3)" and c2: "errors_Is e2 RedisNil"
        and c3: "client_Exists (lock_key k) s3 = (Inr 0, s4)"
        by simp_all
      note gone = redis_waiter_lock_gone [OF a1 a2 a3 b1 b2 b3 c1 c2 c3,
          of marshal unmarshal ticks ttl fetchFn' w']
      {
        fix v s5
        assume "client_Get k s4 = (Inr v, s5)"
        then show "?call s w' = Some (decode unmarshal v, s5, w')"
          by (simp add: gone)
      }
      fix e3 s5
      assume "client_Get k s4 = (Inl e3, s5)"
      then show "?call s w' = Some (Inl (New ''fetch operation failed or cache not populated''),
                         s5, w')"
        by (simp add: gone)
    }
  qed
  have holder: "(\<exists>r c'. ?call c w' = Some (r, c', snd (fetchFn' cx w')))
      \<and> (\<forall>err. fst (fetchFn' cx w') = Inl err \<longrightarrow>
            ?call c w' = Some (Inl (Wrap ''fetch function failed'' err), c, snd (fetchFn' cx w')))"
    if "env c = [] \<and> store c k = None \<and> store c (lock_key k) = None"
  proof (intro conjI allI impI)
    from that have q: "env c = []" "store c k = None" "store c (lock_key k) = None"
      by simp_all
    show "\<exists>r c'. ?call c w' = Some (r, c', snd (fetchFn' cx w'))"
      by (simp add: redis_idle_miss [OF q] split: prod.splits sum.splits)
    fix err
    assume "fst (fetchFn' cx w') = Inl err"
    then show "?call c w' = Some (Inl (Wrap ''fetch function failed'' err), c, snd (fetchFn' cx w'))"
      by (cases "fetchFn' cx w'") (simp add: redis_idle_miss [OF q])
  qed
  from succeeds fails apart shared progress attached waiter holder show ?thesis
    unfolding Let_def by blast
qed

text \<open>
  In memory, callers whose steps interleave. The fetch succeeds: caller 0 leads, 1 and
  2 wait for its call; all three return \<open>''v''\<close> and the counter is 1. The fetch fails:
  caller 1 waits for the call of caller 0; both return \<open>''boom''\<close>, the counter is 1
  and the table is empty. On Redis, B holds the lock; A misses, does not get the
  lock, finds the lock held at its first poll and sleeps 10 ms. At its second poll
  either B has released the lock without writing, and A returns the other error; or B
  has written \<open>''v''\<close>, and A returns it. A's counter is untouched. B, on the cold store
  with a failing fetch, returns \<open>''boom''\<close> wrapped and has written nothing.
\<close>

theorem single_flight_by_design_witness:
  "(let st = race_run Some (\<lambda>d. d) Background ''K'' Second (\<lambda>cx n. (Inr ''v'', Suc n))
        [0, 1, 2, 0, 1, 2, 0, 0, 0, 0, 1, 2, 0, 1, 2] (race_start Map.empty (0::nat))
    in callers st 0 = Returned (Inr ''v'') \<and> callers st 1 = Returned (Inr ''v'')
       \<and> callers st 2 = Returned (Inr ''v'') \<and> outside st = 1
       \<and> cache_Get (table st) ''K'' = Some (Some ''v''))
   \<and> (let st = race_run Some (\<lambda>d. d) Background ''K'' Second
        (\<lambda>cx n. (Inl (New ''boom''), Suc n))
        [0, 1, 0, 1, 0, 0, 0, 1, 0, 1] (race_start Map.empty (0::nat))
    in callers st 0 = Returned (Inl (New ''boom'') :: error + string)
       \<and> callers st 1 = Returned (Inl (New ''boom'')) \<and> outside st = 1
       \<and> table st = Map.empty)
   \<and> redisCacher_GetOrFetch Inr Inr 0 ''A'' Background ''K'' Second
     (\<lambda>cx n. (Inl (New ''boom''), Suc n))
     \<lparr>store = [''K:lock'' \<mapsto> (''B'', 30000)],
      env = [Quiet, Quiet, Quiet, Quiet,
             Interfere (\<lambda>st. snd (release_script ''K:lock'' ''B'' st))],
      now = 0, sleeps = []\<rparr> (1::nat)
   = Some (Inl (New ''fetch operation failed or cache not populated'') :: error + string,
       \<lparr>store = Map.empty, env = [], now = 10000000, sleeps = [10000000]\<rparr>, 1)
   \<and> redisCacher_GetOrFetch Inr Inr 0 ''A'' Background ''K'' Second
     (\<lambda>cx n. (Inr ''v'', Suc n))
     \<lparr>store = [''K:lock'' \<mapsto> (''B'', 30000)],
      env = [Quiet, Quiet, Quiet, Quiet,
             Interfere (\<lambda>st. snd (release_script ''K:lock'' ''B''
                                (snd (SET ''K'' ''v'' (Milliseconds Second) st))))],
      now = 0, sleeps = []\<rparr> (1::nat)
   = Some (Inr ''v'',
       \<lparr>store = [''K'' \<mapsto> (''v'', 1000)], env = [], now = 10000000, sleeps = [10000000]\<rparr>, 1)
   \<and> redisCacher_GetOrFetch Inr Inr 0 ''B'' Background ''K'' Second
     (\<lambda>cx n. (Inl (New ''boom''), Suc n))
     \<lparr>store = Map.empty, env = [], now = 0, sleeps = []\<rparr> (0::nat)
   = Some (Inl (Wrap ''fetch function failed'' (New ''boom'')) :: error + string,
       \<lparr>store = Map.empty, env = [], now = 0, sleeps = []\<rparr>, 1)"
proof -
  let ?G = "\<lambda>(cx :: ctx) (n :: nat). (Inr ''v'' :: error + string, Suc n)"
  let ?F = "\<lambda>(cx :: ctx) (n :: nat). (Inl (New ''boom'') :: error + string, Suc n)"
  let ?run = "race_run Some (\<lambda>d. d) Background ''K'' Second ?G
        [0, 1, 2, 0, 1, 2, 0, 0, 0, 0, 1, 2, 0, 1, 2] (race_start Map.empty (0::nat))"
  let ?runF = "race_run Some (\<lambda>d. d) Background ''K'' Second ?F
        [0, 1, 0, 1, 0, 0, 0, 1, 0, 1] (race_start Map.empty (0::nat))"
  have callers_run: "callers ?run = (\<lambda>i. Calling)(0 := Returned (Inr ''v''),
      1 := Returned (Inr ''v''), 2 := Returned (Inr ''v''))"
    by (simp add: race_step_def race_start_def move_def try_cache_def cache_Get_def
        cache_Set_def numeral_2_eq_2 fun_eq_iff)
  have callers_runF: "callers ?runF = (\<lambda>i. Calling)(0 := Returned (Inl (New ''boom'')),
      1 := Returned (Inl (New ''boom'')))"
    and outside_runF: "outside ?runF = 1"
    by (simp_all add: race_step_def race_start_def move_def try_cache_def cache_Get_def
        fun_eq_iff)
  have cold: "try_cache (\<lambda>d. d) (Map.empty :: string option Cache) ''K'' = None
      \<and> ?G Background 0 = (Inr ''v'', 1) \<and> (\<lambda>d. d) (Some ''v'') = Some ''v''"
    by (simp add: try_cache_def cache_Get_def)
  have coldF: "try_cache (\<lambda>d. d) (Map.empty :: string option Cache) ''K'' = None
      \<and> (\<forall>w. fst (?F Background w) = Inl (New ''boom''))"
    by (simp add: try_cache_def cache_Get_def)
  let ?rel = "Interfere (\<lambda>st. snd (release_script ''K:lock'' ''B'' st))"
  let ?set = "Interfere (\<lambda>st. snd (release_script ''K:lock'' ''B''
                                (snd (SET ''K'' ''v'' (Milliseconds Second) st))))"
  let ?lock = "[''K:lock'' \<mapsto> (''B'', 30000 :: int)]"
  have lose: "client_Get ''K'' \<lparr>store = ?lock, env = [Quiet, Quiet, Quiet, Quiet, ev],
          now = 0, sleeps = []\<rparr>
        = (Inl RedisNil, \<lparr>store = ?lock, env = [Quiet, Quiet, Quiet, ev], now = 0, sleeps = []\<rparr>)
      \<and> errors_Is RedisNil RedisNil
      \<and> client_SetNX (lock_key ''K'') ''A'' lockTTL
          \<lparr>store = ?lock, env = [Quiet, Quiet, Quiet, ev], now = 0, sleeps = []\<rparr>
        = (Inr False, \<lparr>store = ?lock, env = [Quiet, Quiet, ev], now = 0, sleeps = []\<rparr>)" for ev
    by (simp add: event_eval lock_key_def)
  have round: "wait_rounds ''K'' (lock_key ''K'')
        (now \<lparr>store = ?lock, env = [Quiet, Quiet, ev], now = 0, sleeps = []\<rparr>
           + sint (30 * Second))
        (Suc 0) Background (10 * Millisecond)
        \<lparr>store = ?lock, env = [Quiet, Quiet, ev], now = 0, sleeps = []\<rparr>
      = Some (Background, next_backoff (10 * Millisecond),
          \<lparr>store = ?lock, env = [ev], now = 10000000, sleeps = [10000000]\<rparr>)
      \<and> ctx_Done Background = (None, Background)
      \<and> \<not> now \<lparr>store = ?lock, env = [Quiet, Quiet, ev], now = 0, sleeps = []\<rparr>
            + sint (30 * Second)
          < now \<lparr>store = ?lock, env = [ev], now = 10000000, sleeps = [10000000]\<rparr>" for ev
    by (simp add: event_eval lock_key_def time_Sleep_def Second_def Millisecond_def
        word_sless_alt)
  have gone: "client_Get ''K'' \<lparr>store = ?lock, env = [?rel], now = 10000000, sleeps = [10000000]\<rparr>
        = (Inl RedisNil, \<lparr>store = Map.empty, env = [], now = 10000000, sleeps = [10000000]\<rparr>)
      \<and> errors_Is RedisNil RedisNil
      \<and> client_Exists (lock_key ''K'')
          \<lparr>store = Map.empty, env = [], now = 10000000, sleeps = [10000000]\<rparr>
        = (Inr 0, \<lparr>store = Map.empty, env = [], now = 10000000, sleeps = [10000000]\<rparr>)"
    by (simp add: event_eval lock_key_def release_script_def fun_eq_iff)
  have absent: "client_Get ''K'' \<lparr>store = Map.empty, env = [], now = 10000000, sleeps = [10000000]\<rparr>
        = (Inl RedisNil, \<lparr>store = Map.empty, env = [], now = 10000000, sleeps = [10000000]\<rparr>)"
    by (simp add: event_eval)
  have there: "client_Get ''K'' \<lparr>store = ?lock, env = [?set], now = 10000000, sleeps = [10000000]\<rparr>
        = (Inr ''v'',
           \<lparr>store = [''K'' \<mapsto> (''v'', 1000)], env = [], now = 10000000, sleeps = [10000000]\<rparr>)"
    by (simp add: event_eval release_script_def Milliseconds_def Second_def Millisecond_def
        fun_eq_iff)
  have idle: "env \<lparr>store = Map.empty, env = [], now = 0, sleeps = []\<rparr> = []
      \<and> store \<lparr>store = Map.empty, env = [], now = 0, sleeps = []\<rparr> ''K'' = None
      \<and> store \<lparr>store = Map.empty, env = [], now = 0, sleeps = []\<rparr> (lock_key ''K'') = None"
    by simp
  have fails: "fst (?F Background 0) = Inl (New ''boom'')" by simp
  have last: "callers ?run 2 = Returned (Inr ''v'')"
    unfolding callers_run by simp
  note mem = single_flight_by_design [where box = Some and assertT = "\<lambda>d. d"
      and cx = Background and k = "''K''" and ttl = Second and fetchFn = ?G
      and sched = "[0, 1, 2, 0, 1, 2, 0, 0, 0, 0, 1, 2, 0, 1, 2]"
      and ?c0.0 = Map.empty and ?w0.0 = 0 and x = "''v''" and ?w1.0 = 1,
      unfolded Let_def, THEN conjunct1, THEN conjunct1, THEN mp, OF cold,
      THEN conjunct2, THEN spec, THEN spec, THEN mp, OF last]
  note memF = single_flight_by_design [where box = Some and assertT = "\<lambda>d. d"
      and cx = Background and k = "''K''" and ttl = Second and fetchFn = ?F
      and sched = "[0, 1, 0, 1, 0, 0, 0, 1, 0, 1]"
      and ?c0.0 = Map.empty and ?w0.0 = 0 and err = "New ''boom''",
      unfolded Let_def, THEN conjunct1, THEN conjunct2, THEN conjunct1, THEN mp, OF coldF,
      THEN conjunct1]
  note waitF = single_flight_by_design [where cx = Background and k = "''K''" and ttl = Second
      and lockValue = "''A''" and marshal = Inr and unmarshal = Inr and ticks = 0
      and fetchFn' = ?F and w' = 1,
      THEN conjunct2, THEN conjunct2, THEN conjunct2, THEN conjunct1, THEN mp,
      OF lose [of ?rel],
      THEN conjunct2, THEN spec, THEN spec, THEN spec, THEN spec, THEN spec, THEN mp,
      OF round [of ?rel], THEN conjunct2, THEN spec, THEN spec, THEN spec, THEN mp, OF gone,
      THEN conjunct2, THEN spec, THEN spec, THEN mp, OF absent]
  note waitG = single_flight_by_design [where cx = Background and k = "''K''" and ttl = Second
      and lockValue = "''A''" and marshal = Inr and unmarshal = Inr and ticks = 0
      and fetchFn' = ?G and w' = 1,
      THEN conjunct2, THEN conjunct2, THEN conjunct2, THEN conjunct1, THEN mp,
      OF lose [of ?set],
      THEN conjunct2, THEN spec, THEN spec, THEN spec, THEN spec, THEN spec, THEN mp,
      OF round [of ?set], THEN conjunct1, THEN spec, THEN spec, THEN mp, OF there]
  note hold = single_flight_by_design [where cx = Background and k = "''K''" and ttl = Second
      and lockValue = "''B''" and marshal = Inr and unmarshal = Inr and ticks = 0
      and fetchFn' = ?F and w' = 0,
      THEN conjunct2, THEN conjunct2, THEN conjunct2, THEN conjunct2, THEN mp, OF idle,
      THEN conjunct2,
      THEN spec, THEN mp, OF fails]
  from mem memF waitF waitG hold callers_run callers_runF outside_runF show ?thesis
    by (simp add: decode_def)
qed

end
